theory Spec2Isabelle
  imports Main "HOL-Library.Char_ord" "HOL-Library.List_Lexorder"
begin

section \<open>Python values\<close>

text \<open>
  The engine of \<^verbatim>\<open>scripts/deduplicate_questions.py\<close> works on the result of
  \<^verbatim>\<open>json.load\<close>: a list of dictionaries whose values are arbitrary JSON values.
  A value is \<^verbatim>\<open>None\<close>, a boolean, an integer, a string, a list or a dictionary with
  string keys. Floating-point numbers are left out. Strings are lists of 8-bit
  characters and every string operation is modelled as Python performs it on ASCII
  text. A dictionary is an association list in insertion order.
\<close>

datatype pyval =
    VNone
  | VBool bool
  | VInt int
  | VStr string
  | VList "pyval list"
  | VDict "(string \<times> pyval) list"

type_synonym pydict = "(string \<times> pyval) list"

text \<open>The exceptions the engine can raise.\<close>

datatype error = AttributeError | ValueError | TypeError | IndexError

text \<open>\<^verbatim>\<open>d.get(k)\<close>, \<^verbatim>\<open>d.get(k, default)\<close>, \<^verbatim>\<open>k in d\<close> and \<^verbatim>\<open>d[k] = v\<close>
  (an existing key keeps its position, a new key goes to the end).\<close>

definition dict_get :: "pydict \<Rightarrow> string \<Rightarrow> pyval" where
  "dict_get d k = (case map_of d k of None \<Rightarrow> VNone | Some v \<Rightarrow> v)"

definition dict_get_default :: "pydict \<Rightarrow> string \<Rightarrow> pyval \<Rightarrow> pyval" where
  "dict_get_default d k dflt = (case map_of d k of None \<Rightarrow> dflt | Some v \<Rightarrow> v)"

definition dict_has :: "pydict \<Rightarrow> string \<Rightarrow> bool" where
  "dict_has d k = (map_of d k \<noteq> None)"

fun setitem :: "pydict \<Rightarrow> string \<Rightarrow> pyval \<Rightarrow> pydict" where
  "setitem [] k v = [(k, v)]"
| "setitem (p # ps) k v = (if fst p = k then (k, v) # ps else p # setitem ps k v)"

text \<open>Truth value of an object, as \<^verbatim>\<open>if x:\<close> tests it.\<close>

fun truthy :: "pyval \<Rightarrow> bool" where
  "truthy VNone = False"
| "truthy (VBool b) = b"
| "truthy (VInt n) = (n \<noteq> 0)"
| "truthy (VStr s) = (s \<noteq> [])"
| "truthy (VList xs) = (xs \<noteq> [])"
| "truthy (VDict d) = (d \<noteq> [])"

text \<open>Numbers compare by value, and \<^verbatim>\<open>True == 1\<close>; everything else compares
  structurally. Used for hashable values only.\<close>

fun num_of :: "pyval \<Rightarrow> int option" where
  "num_of (VBool b) = Some (if b then 1 else 0)"
| "num_of (VInt n) = Some n"
| "num_of _ = None"

definition py_eq :: "pyval \<Rightarrow> pyval \<Rightarrow> bool" where
  "py_eq a b = (case (num_of a, num_of b) of
       (Some x, Some y) \<Rightarrow> x = y
     | (None, None) \<Rightarrow> a = b
     | _ \<Rightarrow> False)"

subsection \<open>\<^verbatim>\<open>str.strip()\<close>\<close>

definition is_space :: "char \<Rightarrow> bool" where
  "is_space c = (of_char c \<in> {9, 10, 11, 12, 13, 28, 29, 30, 31, 32 :: nat})"

definition py_strip :: "string \<Rightarrow> string" where
  "py_strip s = rev (dropWhile is_space (rev (dropWhile is_space s)))"

text \<open>\<^verbatim>\<open>q.get('question', '').strip()\<close>: only a string has the method.\<close>

fun strip_value :: "pyval \<Rightarrow> error + string" where
  "strip_value (VStr s) = Inr (py_strip s)"
| "strip_value _ = Inl AttributeError"

subsection \<open>\<^verbatim>\<open>int(x)\<close>\<close>

text \<open>
  A string is accepted when, after removing surrounding C whitespace, it is an
  optional sign followed by decimal digits, single underscores allowed between
  digits; more than 4300 digits are refused (the interpreter's default
  limit for integer string conversion).
\<close>

definition is_c_space :: "char \<Rightarrow> bool" where
  "is_c_space c = (of_char c \<in> {9, 10, 11, 12, 13, 32 :: nat})"

definition is_digit :: "char \<Rightarrow> bool" where
  "is_digit c = (48 \<le> (of_char c :: nat) \<and> (of_char c :: nat) \<le> 57)"

fun digits_ok :: "string \<Rightarrow> bool" where
  "digits_ok [] = False"
| "digits_ok [c] = is_digit c"
| "digits_ok (c # d # cs) =
     (is_digit c \<and> (if d = CHR ''_'' then digits_ok cs else digits_ok (d # cs)))"

definition digits_value :: "string \<Rightarrow> int" where
  "digits_value s = foldl (\<lambda>a c. 10 * a + (int (of_char c) - 48)) 0 (filter is_digit s)"

definition max_str_digits :: nat where
  "max_str_digits = 4300"

definition int_of_string :: "string \<Rightarrow> error + int" where
  "int_of_string s =
     (let t = rev (dropWhile is_c_space (rev (dropWhile is_c_space s)));
          neg = (t \<noteq> [] \<and> hd t = CHR ''-'');
          body = (if t \<noteq> [] \<and> (hd t = CHR ''-'' \<or> hd t = CHR ''+'') then tl t else t)
      in if \<not> digits_ok body then Inl ValueError
         else if max_str_digits < length (filter is_digit body) then Inl ValueError
         else Inr (if neg then - digits_value body else digits_value body))"

fun py_int :: "pyval \<Rightarrow> error + int" where
  "py_int (VInt n) = Inr n"
| "py_int (VBool b) = Inr (if b then 1 else 0)"
| "py_int (VStr s) = int_of_string s"
| "py_int VNone = Inl TypeError"
| "py_int (VList xs) = Inl TypeError"
| "py_int (VDict d) = Inl TypeError"

subsection \<open>\<^verbatim>\<open>str(x)\<close>\<close>

definition digit_char :: "nat \<Rightarrow> char" where
  "digit_char d = char_of (48 + d)"

function nat_digits :: "nat \<Rightarrow> string" where
  "nat_digits n = (if n < 10 then [digit_char n]
                   else nat_digits (n div 10) @ [digit_char (n mod 10)])"
  by pat_completeness auto
termination
  by (relation "measure id") auto

definition int_str :: "int \<Rightarrow> string" where
  "int_str n = (if n < 0 then CHR ''-'' # nat_digits (nat (- n)) else nat_digits (nat n))"

definition hex_char :: "nat \<Rightarrow> char" where
  "hex_char d = (if d < 10 then char_of (48 + d) else char_of (87 + d))"

definition repr_char :: "char \<Rightarrow> char \<Rightarrow> string" where
  "repr_char quote c =
     (let n = (of_char c :: nat) in
      if c = quote \<or> n = 92 then [CHR 0x5C, c]
      else if n = 9 then [CHR 0x5C, CHR ''t'']
      else if n = 10 then [CHR 0x5C, CHR ''n'']
      else if n = 13 then [CHR 0x5C, CHR ''r'']
      else if n < 32 \<or> n = 127 then [CHR 0x5C, CHR ''x'', hex_char (n div 16), hex_char (n mod 16)]
      else [c])"

definition repr_str :: "string \<Rightarrow> string" where
  "repr_str s =
     (let quote = (if CHR 0x27 \<in> set s \<and> CHR 0x22 \<notin> set s then CHR 0x22 else CHR 0x27)
      in quote # concat (map (repr_char quote) s) @ [quote])"

fun join :: "string \<Rightarrow> string list \<Rightarrow> string" where
  "join sep [] = []"
| "join sep [x] = x"
| "join sep (x # y # ys) = x @ sep @ join sep (y # ys)"

fun py_repr :: "pyval \<Rightarrow> string" where
  "py_repr VNone = ''None''"
| "py_repr (VBool b) = (if b then ''True'' else ''False'')"
| "py_repr (VInt n) = int_str n"
| "py_repr (VStr s) = repr_str s"
| "py_repr (VList xs) = ''['' @ join '', '' (map py_repr xs) @ '']''"
| "py_repr (VDict d) =
     ''{'' @ join '', '' (map (\<lambda>(k, v). repr_str k @ '': '' @ py_repr v) d) @ ''}''"

text \<open>An integer of more than 4300 digits anywhere in the value makes the conversion
  raise \<^verbatim>\<open>ValueError\<close>.\<close>

fun has_long_int :: "pyval \<Rightarrow> bool" where
  "has_long_int (VInt n) = (max_str_digits < length (nat_digits (nat \<bar>n\<bar>)))"
| "has_long_int (VList xs) = list_ex has_long_int xs"
| "has_long_int (VDict d) = list_ex (\<lambda>(k, v). has_long_int v) d"
| "has_long_int _ = False"

definition py_str :: "pyval \<Rightarrow> error + string" where
  "py_str v = (case v of
       VStr s \<Rightarrow> Inr s
     | _ \<Rightarrow> if has_long_int v then Inl ValueError else Inr (py_repr v))"

subsection \<open>Sets of hashable values and \<^verbatim>\<open>sorted\<close>\<close>

fun hashable :: "pyval \<Rightarrow> bool" where
  "hashable (VList xs) = False"
| "hashable (VDict d) = False"
| "hashable _ = True"

text \<open>\<^verbatim>\<open>s.add(x)\<close> on a set kept as the list of its members.\<close>

definition set_add :: "pyval list \<Rightarrow> pyval \<Rightarrow> error + pyval list" where
  "set_add s x =
     (if \<not> hashable x then Inl TypeError
      else if list_ex (\<lambda>y. py_eq y x) s then Inr s
      else Inr (s @ [x]))"

fun is_str :: "pyval \<Rightarrow> bool" where
  "is_str (VStr s) = True"
| "is_str _ = False"

fun str_of :: "pyval \<Rightarrow> string" where
  "str_of (VStr s) = s"
| "str_of _ = []"

definition num_val :: "pyval \<Rightarrow> int" where
  "num_val v = (case num_of v of Some n \<Rightarrow> n | None \<Rightarrow> 0)"

text \<open>\<^verbatim>\<open>sorted(list(s))\<close> for a set of truthy hashable values: strings sort by code
  point, numbers by value, and a string cannot be compared with a number.\<close>

definition py_sorted :: "pyval list \<Rightarrow> error + pyval list" where
  "py_sorted xs =
     (if length xs \<le> 1 then Inr xs
      else if list_all is_str xs then Inr (map VStr (sort (map str_of xs)))
      else if list_all (\<lambda>v. num_of v \<noteq> None) xs then Inr (sort_key num_val xs)
      else Inl TypeError)"


section \<open>The deduplication engine\<close>

text \<open>
  A question record is a dictionary; the corpus is the list of records in file order.
  Indices are positions handed out by \<^verbatim>\<open>enumerate\<close>, hence natural numbers.
  The records of a corpus are separate objects, as \<^verbatim>\<open>json.load\<close> builds them.
\<close>

subsection \<open>\<^verbatim>\<open>find_duplicates\<close>\<close>

text \<open>\<^verbatim>\<open>question_texts[text].append(i)\<close> on the insertion-ordered
  \<^verbatim>\<open>defaultdict(list)\<close>.\<close>

fun append_index :: "(string \<times> nat list) list \<Rightarrow> string \<Rightarrow> nat \<Rightarrow> (string \<times> nat list) list" where
  "append_index [] text i = [(text, [i])]"
| "append_index (p # ps) text i =
     (if fst p = text then (fst p, snd p @ [i]) # ps else p # append_index ps text i)"

fun group_loop ::
  "(string \<times> nat list) list \<Rightarrow> (nat \<times> pydict) list \<Rightarrow> error + (string \<times> nat list) list" where
  "group_loop question_texts [] = Inr question_texts"
| "group_loop question_texts (iq # rest) =
     (case strip_value (dict_get_default (snd iq) ''question'' (VStr [])) of
        Inl e \<Rightarrow> Inl e
      | Inr text \<Rightarrow> group_loop (append_index question_texts text (fst iq)) rest)"

definition find_duplicates :: "pydict list \<Rightarrow> error + (string \<times> nat list) list" where
  "find_duplicates questions =
     (case group_loop [] (enumerate 0 questions) of
        Inl e \<Rightarrow> Inl e
      | Inr question_texts \<Rightarrow> Inr (filter (\<lambda>p. 1 < length (snd p)) question_texts))"

subsection \<open>\<^verbatim>\<open>select_canonical_version\<close>\<close>

definition questions_at :: "pydict list \<Rightarrow> nat \<Rightarrow> error + pydict" where
  "questions_at questions i =
     (if i < length questions then Inr (questions ! i) else Inl IndexError)"

fun candidates_of :: "pydict list \<Rightarrow> nat list \<Rightarrow> error + (nat \<times> pydict) list" where
  "candidates_of questions [] = Inr []"
| "candidates_of questions (i # rest) =
     (case questions_at questions i of
        Inl e \<Rightarrow> Inl e
      | Inr q \<Rightarrow> (case candidates_of questions rest of
                   Inl e \<Rightarrow> Inl e
                 | Inr cs \<Rightarrow> Inr ((i, q) # cs)))"

type_synonym priority = "bool \<times> int \<times> int"

definition year_of :: "pydict \<Rightarrow> error + int" where
  "year_of q = (if truthy (dict_get q ''year'')
                then py_int (dict_get_default q ''year'' (VInt 9999))
                else Inr 9999)"

definition priority_key :: "nat \<times> pydict \<Rightarrow> error + priority" where
  "priority_key item =
     (let q = snd item;
          unit = dict_get_default q ''unit'' (VStr ''Unknown'')
      in case year_of q of
           Inl e \<Rightarrow> Inl e
         | Inr year \<Rightarrow>
             (let has_metadata = (if truthy (dict_get q ''metadata'') then 1 else 0 :: int)
              in Inr (py_eq unit (VStr ''Unknown''), year, - has_metadata)))"

text \<open>Tuples compare lexicographically, \<^verbatim>\<open>False < True\<close>.\<close>

fun key_less :: "priority \<Rightarrow> priority \<Rightarrow> bool" where
  "key_less (u1, y1, m1) (u2, y2, m2) =
     ((\<not> u1 \<and> u2) \<or> (u1 = u2 \<and> (y1 < y2 \<or> (y1 = y2 \<and> m1 < m2))))"

text \<open>\<^verbatim>\<open>min(candidates, key=priority_key)\<close>: the key of each item is computed once, in
  order, and an item replaces the current best only when its key is strictly smaller.\<close>

fun min_loop ::
  "(nat \<times> pydict) \<times> priority \<Rightarrow> (nat \<times> pydict) list \<Rightarrow> error + (nat \<times> pydict)" where
  "min_loop best [] = Inr (fst best)"
| "min_loop best (c # cs) =
     (case priority_key c of
        Inl e \<Rightarrow> Inl e
      | Inr k \<Rightarrow> min_loop (if key_less k (snd best) then (c, k) else best) cs)"

definition py_min :: "(nat \<times> pydict) list \<Rightarrow> error + (nat \<times> pydict)" where
  "py_min candidates =
     (case candidates of
        [] \<Rightarrow> Inl ValueError
      | c # cs \<Rightarrow> (case priority_key c of
                    Inl e \<Rightarrow> Inl e
                  | Inr k \<Rightarrow> min_loop (c, k) cs))"

definition select_canonical_version :: "pydict list \<Rightarrow> nat list \<Rightarrow> error + (nat \<times> pydict)" where
  "select_canonical_version questions indices =
     (case candidates_of questions indices of
        Inl e \<Rightarrow> Inl e
      | Inr candidates \<Rightarrow> py_min candidates)"

subsection \<open>\<^verbatim>\<open>merge_sources\<close>\<close>

definition source_entry :: "pydict \<Rightarrow> nat \<Rightarrow> pyval" where
  "source_entry q idx = VDict
     [(''year'', dict_get q ''year''),
      (''source_file'', dict_get q ''source_file''),
      (''question_number'', dict_get q ''question_number''),
      (''original_index'', VInt (int idx))]"

definition years_add :: "string list \<Rightarrow> string \<Rightarrow> string list" where
  "years_add years s = (if s \<in> set years then years else years @ [s])"

fun merge_loop ::
  "pydict list \<Rightarrow> nat list \<Rightarrow> pyval list \<times> string list \<times> pyval list \<Rightarrow>
   error + (pyval list \<times> string list \<times> pyval list)" where
  "merge_loop questions [] st = Inr st"
| "merge_loop questions (idx # rest) st =
     (case questions_at questions idx of
        Inl e \<Rightarrow> Inl e
      | Inr q \<Rightarrow>
         (let sources = fst st; years = fst (snd st); source_files = snd (snd st);
              year = dict_get q ''year'';
              source_file = dict_get q ''source_file''
          in case (if truthy year
                   then (case py_str year of Inl e \<Rightarrow> Inl e | Inr s \<Rightarrow> Inr (years_add years s))
                   else Inr years) of
               Inl e \<Rightarrow> Inl e
             | Inr years' \<Rightarrow>
                (case (if truthy source_file then set_add source_files source_file
                       else Inr source_files) of
                   Inl e \<Rightarrow> Inl e
                 | Inr source_files' \<Rightarrow>
                     merge_loop questions rest
                       (sources @ [source_entry q idx], years', source_files'))))"

definition merge_sources :: "pydict list \<Rightarrow> nat list \<Rightarrow> error + pydict" where
  "merge_sources questions indices =
     (case merge_loop questions indices ([], [], []) of
        Inl e \<Rightarrow> Inl e
      | Inr st \<Rightarrow>
         (case py_sorted (snd (snd st)) of
            Inl e \<Rightarrow> Inl e
          | Inr pdfs \<Rightarrow> Inr
             [(''source_pdfs'', VList pdfs),
              (''years_found'', VList (map VStr (sort (fst (snd st))))),
              (''all_sources'', VList (fst st)),
              (''duplicate_count'', VInt (int (length indices)))]))"

subsection \<open>\<^verbatim>\<open>deduplicate_questions\<close>\<close>

record group_audit =
  canonical_index :: nat
  canonical_unit :: pyval
  canonical_year :: pyval
  duplicate_indices :: "nat list"
  merged_sources :: pydict

record report =
  total_original :: int
  total_duplicates_found :: int
  total_duplicate_instances :: int
  duplicate_groups :: "group_audit list"
  total_after_deduplication :: int
  questions_removed :: int

text \<open>
  \<^verbatim>\<open>q = original.copy()\<close> is a shallow copy: a \<^verbatim>\<open>metadata\<close> dictionary the
  record already has is one object, reachable from the copy and from the record in the
  input list. \<^verbatim>\<open>write_metadata original q kvs\<close> performs
  \<^verbatim>\<open>if 'metadata' not in q: q['metadata'] = {}\<close> followed by the assignments
  \<^verbatim>\<open>q['metadata'][k] = v\<close> for the pairs of \<^verbatim>\<open>kvs\<close>, and returns the input
  record and the copy as they are afterwards. A fresh \<^verbatim>\<open>{}\<close> belongs to the copy
  alone; an existing dictionary receives the assignments in both; any other existing
  value does not support item assignment.
\<close>

definition write_metadata ::
  "pydict \<Rightarrow> pydict \<Rightarrow> (string \<times> pyval) list \<Rightarrow> error + (pydict \<times> pydict)" where
  "write_metadata original q kvs =
     (if \<not> dict_has q ''metadata''
      then Inr (original,
                setitem q ''metadata'' (VDict (foldl (\<lambda>d kv. setitem d (fst kv) (snd kv)) [] kvs)))
      else (case dict_get q ''metadata'' of
              VDict md \<Rightarrow>
                (let md' = foldl (\<lambda>d kv. setitem d (fst kv) (snd kv)) md kvs
                 in Inr (setitem original ''metadata'' (VDict md'),
                         setitem q ''metadata'' (VDict md')))
            | _ \<Rightarrow> Inl TypeError))"

text \<open>The state of the run: the input list (whose records can change through shared
  metadata), the output list, \<^verbatim>\<open>indices_to_keep\<close> and
  \<^verbatim>\<open>report['duplicate_groups']\<close>.\<close>

type_synonym run_state = "pydict list \<times> pydict list \<times> nat set \<times> group_audit list"

definition discard_others :: "nat set \<Rightarrow> nat list \<Rightarrow> nat \<Rightarrow> nat set" where
  "discard_others keep indices canonical_idx =
     foldl (\<lambda>k idx. if idx \<noteq> canonical_idx then k - {idx} else k) keep indices"

definition process_group :: "run_state \<Rightarrow> string \<times> nat list \<Rightarrow> error + run_state" where
  "process_group st g =
     (let questions = fst st; deduplicated = fst (snd st);
          indices_to_keep = fst (snd (snd st)); groups = snd (snd (snd st));
          indices = snd g
      in case select_canonical_version questions indices of
           Inl e \<Rightarrow> Inl e
         | Inr (canonical_idx, canonical_q) \<Rightarrow>
            (case merge_sources questions indices of
               Inl e \<Rightarrow> Inl e
             | Inr merged \<Rightarrow>
                (case write_metadata canonical_q
                        (setitem canonical_q ''source_metadata'' (VDict merged))
                        [(''source_pdfs'', dict_get merged ''source_pdfs''),
                         (''years_found'', dict_get merged ''years_found''),
                         (''is_deduplicated'', VBool True),
                         (''duplicate_count'', dict_get merged ''duplicate_count'')] of
                   Inl e \<Rightarrow> Inl e
                 | Inr (canonical_q', enhanced_q) \<Rightarrow> Inr
                     (questions[canonical_idx := canonical_q'],
                      deduplicated @ [enhanced_q],
                      discard_others indices_to_keep indices canonical_idx,
                      groups @ [\<lparr>canonical_index = canonical_idx,
                                 canonical_unit = dict_get canonical_q' ''unit'',
                                 canonical_year = dict_get canonical_q' ''year'',
                                 duplicate_indices = indices,
                                 merged_sources = merged\<rparr>]))))"

fun group_pass :: "run_state \<Rightarrow> (string \<times> nat list) list \<Rightarrow> error + run_state" where
  "group_pass st [] = Inr st"
| "group_pass st (g # gs) =
     (case process_group st g of Inl e \<Rightarrow> Inl e | Inr st' \<Rightarrow> group_pass st' gs)"

fun single_pass ::
  "nat list \<Rightarrow> pydict list \<times> pydict list \<Rightarrow> nat list \<Rightarrow> error + (pydict list \<times> pydict list)" where
  "single_pass canonical st [] = Inr st"
| "single_pass canonical st (i # rest) =
     (if i \<notin> set canonical
      then (case questions_at (fst st) i of
              Inl e \<Rightarrow> Inl e
            | Inr original \<Rightarrow>
               (case write_metadata original original [(''is_deduplicated'', VBool False)] of
                  Inl e \<Rightarrow> Inl e
                | Inr (original', q) \<Rightarrow>
                    single_pass canonical ((fst st)[i := original'], snd st @ [q]) rest))
      else single_pass canonical st rest)"

text \<open>The result carries, besides the two values the function returns, the input list
  as the run leaves it.\<close>

definition deduplicate_questions ::
  "pydict list \<Rightarrow> error + (pydict list \<times> pydict list \<times> report)" where
  "deduplicate_questions questions =
     (case find_duplicates questions of
        Inl e \<Rightarrow> Inl e
      | Inr duplicates \<Rightarrow>
         (case group_pass (questions, [], set [0..<length questions], []) duplicates of
            Inl e \<Rightarrow> Inl e
          | Inr (questions1, deduplicated1, indices_to_keep, groups) \<Rightarrow>
             (case single_pass (map canonical_index groups) (questions1, deduplicated1)
                     (sorted_list_of_set indices_to_keep) of
                Inl e \<Rightarrow> Inl e
              | Inr (questions2, deduplicated) \<Rightarrow>
                 (let n = int (length questions);
                      after = int (length deduplicated)
                  in Inr (questions2, deduplicated,
                          \<lparr>total_original = n,
                           total_duplicates_found = int (length duplicates),
                           total_duplicate_instances =
                             sum_list (map (\<lambda>p. int (length (snd p)) - 1) duplicates),
                           duplicate_groups = groups,
                           total_after_deduplication = after,
                           questions_removed = n - after\<rparr>)))))"

subsection \<open>Vocabulary for the properties\<close>

text \<open>The strings \<^verbatim>\<open>str(year)\<close> of the truthy years, and the non-empty strings among
  the source files, in list order.\<close>

definition year_strings :: "pyval list \<Rightarrow> string list" where
  "year_strings vs =
     concat (map (\<lambda>v. if truthy v then (case py_str v of Inr s \<Rightarrow> [s] | Inl e \<Rightarrow> []) else []) vs)"

definition file_strings :: "pyval list \<Rightarrow> string list" where
  "file_strings vs =
     concat (map (\<lambda>v. case v of VStr s \<Rightarrow> (if s = [] then [] else [s]) | _ \<Rightarrow> []) vs)"

text \<open>The deduplication key of a record (line 42 of the script).\<close>

definition question_text :: "pydict \<Rightarrow> error + string" where
  "question_text q = strip_value (dict_get_default q ''question'' (VStr []))"

text \<open>The positions of a text in a list of texts, ascending; the distinct texts in the
  order of their first occurrence; and the grouping both give.\<close>

definition positions :: "'a \<Rightarrow> 'a list \<Rightarrow> nat list" where
  "positions t ts = filter (\<lambda>i. ts ! i = t) [0..<length ts]"

definition first_order :: "'a list \<Rightarrow> 'a list" where
  "first_order ts = rev (remdups (rev ts))"

definition group_spec :: "string list \<Rightarrow> (string \<times> nat list) list" where
  "group_spec ts = map (\<lambda>t. (t, positions t ts)) (first_order ts)"

text \<open>What the body of the group loop computes from the list and a group's indices: the
  canonical index, the canonical record after the metadata assignments, the enhanced
  copy appended to the output and the merged sources.\<close>

definition enhance :: "pydict list \<Rightarrow> nat list \<Rightarrow> error + (nat \<times> pydict \<times> pydict \<times> pydict)" where
  "enhance questions indices =
     (case select_canonical_version questions indices of
        Inl e \<Rightarrow> Inl e
      | Inr (canonical_idx, canonical_q) \<Rightarrow>
         (case merge_sources questions indices of
            Inl e \<Rightarrow> Inl e
          | Inr merged \<Rightarrow>
             (case write_metadata canonical_q
                     (setitem canonical_q ''source_metadata'' (VDict merged))
                     [(''source_pdfs'', dict_get merged ''source_pdfs''),
                      (''years_found'', dict_get merged ''years_found''),
                      (''is_deduplicated'', VBool True),
                      (''duplicate_count'', dict_get merged ''duplicate_count'')] of
                Inl e \<Rightarrow> Inl e
              | Inr (canonical_q', enhanced_q) \<Rightarrow>
                  Inr (canonical_idx, canonical_q', enhanced_q, merged))))"

definition audit_of :: "nat list \<Rightarrow> nat \<times> pydict \<times> pydict \<times> pydict \<Rightarrow> group_audit" where
  "audit_of indices r =
     \<lparr>canonical_index = fst r,
      canonical_unit = dict_get (fst (snd r)) ''unit'',
      canonical_year = dict_get (fst (snd r)) ''year'',
      duplicate_indices = indices,
      merged_sources = snd (snd (snd r))\<rparr>"

text \<open>What the second loop computes from a record outside every group: the record after
  the assignment and the copy appended to the output.\<close>

definition single_record :: "pydict \<Rightarrow> error + (pydict \<times> pydict)" where
  "single_record q = write_metadata q q [(''is_deduplicated'', VBool False)]"

text \<open>The duplicate groups of a list of texts, and the indices outside every group.\<close>

definition dup_groups :: "string list \<Rightarrow> (string \<times> nat list) list" where
  "dup_groups ts = filter (\<lambda>p. 1 < length (snd p)) (group_spec ts)"

definition singles :: "string list \<Rightarrow> nat list" where
  "singles ts = filter (\<lambda>i. i \<notin> set (concat (map snd (dup_groups ts)))) [0..<length ts]"

text \<open>The end-to-end scenario: two copies of one question and a third question.\<close>

definition example_corpus :: "pydict list" where
  "example_corpus =
     [[(''question'', VStr ''What is OOP?''), (''unit'', VStr ''Unknown''),
       (''year'', VStr ''2020''), (''source_file'', VStr ''a.pdf'')],
      [(''question'', VStr ''What is OOP?''), (''unit'', VStr ''BBIT106''),
       (''year'', VStr ''2019''), (''source_file'', VStr ''b.pdf'')],
      [(''question'', VStr ''Define SQL.''), (''unit'', VStr ''BBIT106''),
       (''year'', VStr ''2021''), (''source_file'', VStr ''c.pdf'')]]"

text \<open>A corpus with three blank questions (absent, whitespace, empty) of unrelated
  content and one proper question.\<close>

definition blank_corpus :: "pydict list" where
  "blank_corpus =
     [[(''unit'', VStr ''BBIT106''), (''year'', VStr ''2019'')],
      [(''question'', VStr ''Define SQL.'')],
      [(''question'', VStr '' ''), (''unit'', VStr ''HR201'')],
      [(''question'', VStr ''''), (''metadata'', VDict [(''k'', VInt 1)])]]"

text \<open>The original indices the output is built from, in output order, as the report
  records them: the canonical index of each group, then the indices outside every
  group; and the indices dropped: the members of each group other than its canonical
  index.\<close>

definition emitted_indices :: "report \<Rightarrow> nat \<Rightarrow> nat list" where
  "emitted_indices rep n =
     map canonical_index (duplicate_groups rep) @
     filter (\<lambda>i. i \<notin> set (concat (map duplicate_indices (duplicate_groups rep)))) [0..<n]"

definition removed_indices :: "report \<Rightarrow> nat list" where
  "removed_indices rep =
     concat (map (\<lambda>g. filter (\<lambda>i. i \<noteq> canonical_index g) (duplicate_indices g))
               (duplicate_groups rep))"

text \<open>A second run on the output of the first, and a record with
  \<^verbatim>\<open>metadata.is_deduplicated\<close> set to false.\<close>

definition rerun :: "pydict list \<Rightarrow> error + (pydict list \<times> pydict list \<times> report)" where
  "rerun questions =
     (case deduplicate_questions questions of
        Inl e \<Rightarrow> Inl e
      | Inr r \<Rightarrow> deduplicate_questions (fst (snd r)))"

definition retag :: "pydict \<Rightarrow> pydict" where
  "retag q =
     (case dict_get q ''metadata'' of
        VDict md \<Rightarrow> setitem q ''metadata'' (VDict (setitem md ''is_deduplicated'' (VBool False)))
      | _ \<Rightarrow> q)"

text \<open>A corpus whose records carry metadata of their own.\<close>

definition metadata_corpus :: "pydict list" where
  "metadata_corpus =
     [[(''question'', VStr ''What is OOP?''), (''unit'', VStr ''BBIT106''),
       (''year'', VStr ''2019''), (''metadata'', VDict [(''topic'', VStr ''oop'')])],
      [(''question'', VStr ''What is OOP?''), (''unit'', VStr ''Unknown''),
       (''year'', VStr ''2020'')],
      [(''question'', VStr ''Define SQL.''), (''metadata'', VDict [(''topic'', VStr ''db'')])]]"

text \<open>A record every step of the engine accepts: the question is absent or a string, the
  year is falsy or converts with \<^verbatim>\<open>int\<close> and with \<^verbatim>\<open>str\<close>, the source file is
  falsy or a string, and the metadata, when present, is a dictionary.\<close>

fun is_dict :: "pyval \<Rightarrow> bool" where
  "is_dict (VDict d) = True"
| "is_dict _ = False"

definition record_ok :: "pydict \<Rightarrow> bool" where
  "record_ok q \<longleftrightarrow>
     \<not> isl (question_text q) \<and>
     \<not> isl (year_of q) \<and>
     (truthy (dict_get q ''year'') \<longrightarrow> \<not> isl (py_str (dict_get q ''year''))) \<and>
     (truthy (dict_get q ''source_file'') \<longrightarrow> is_str (dict_get q ''source_file'')) \<and>
     (dict_has q ''metadata'' \<longrightarrow> is_dict (dict_get q ''metadata''))"

section \<open>Canonical selection\<close>

declare nat_digits.simps [simp del]


lemma candidates_of_in_range:
  "\<forall>i\<in>set indices. i < length questions \<Longrightarrow>
   candidates_of questions indices = Inr (map (\<lambda>i. (i, questions ! i)) indices)"
  by (induction indices) (simp_all add: questions_at_def)

lemma candidates_of_out_of_range:
  "\<exists>i\<in>set indices. length questions \<le> i \<Longrightarrow> candidates_of questions indices = Inl IndexError"
proof (induction indices)
  case Nil
  then show ?case by simp
next
  case (Cons i indices)
  show ?case
  proof (cases "i < length questions")
    case True
    with Cons.prems have "\<exists>i\<in>set indices. length questions \<le> i" by auto
    from Cons.IH[OF this] True show ?thesis by (simp add: questions_at_def)
  next
    case False
    then show ?thesis by (simp add: questions_at_def)
  qed
qed

lemma candidates_of_Inr:
  "candidates_of questions indices = Inr cs \<Longrightarrow>
     (\<forall>i\<in>set indices. i < length questions) \<and> cs = map (\<lambda>i. (i, questions ! i)) indices"
  using candidates_of_in_range[of indices questions] candidates_of_out_of_range[of indices questions]
  by (cases "\<forall>i\<in>set indices. i < length questions") (auto simp: not_less)

lemma key_less_irrefl: "\<not> key_less k k"
  by (cases k) auto

lemma key_less_trans: "key_less a b \<Longrightarrow> key_less b c \<Longrightarrow> key_less a c"
  by (cases a; cases b; cases c) auto

lemma key_less_le_trans: "key_less a b \<Longrightarrow> \<not> key_less c b \<Longrightarrow> key_less a c"
  by (cases a; cases b; cases c) auto

lemma key_le_trans: "\<not> key_less b a \<Longrightarrow> \<not> key_less c b \<Longrightarrow> \<not> key_less c a"
  by (cases a; cases b; cases c) auto

lemma key_less_asym: "key_less a b \<Longrightarrow> \<not> key_less b a"
  by (cases a; cases b) auto

lemma min_loop_keys:
  "min_loop (b, kb) cs = Inr r \<Longrightarrow> \<forall>c\<in>set cs. \<exists>k. priority_key c = Inr k"
  by (induction cs arbitrary: b kb) (auto split: sum.splits if_splits)

lemma min_loop_error:
  "min_loop (b, kb) cs = Inl e \<Longrightarrow> \<exists>c\<in>set cs. priority_key c = Inl e"
  by (induction cs arbitrary: b kb) (auto split: sum.splits if_splits)

lemma min_loop_total:
  "\<forall>c\<in>set cs. \<exists>k. priority_key c = Inr k \<Longrightarrow> \<exists>r. min_loop (b, kb) cs = Inr r"
  by (induction cs arbitrary: b kb) (auto split: sum.splits if_splits)

lemma min_loop_first_min:
  assumes "min_loop (b, kb) cs = Inr r" and "priority_key b = Inr kb"
  shows "\<exists>n kr. n < length (b # cs) \<and> r = (b # cs) ! n \<and> priority_key r = Inr kr \<and>
           (\<forall>m < length (b # cs). \<exists>k. priority_key ((b # cs) ! m) = Inr k \<and>
                \<not> key_less k kr \<and> (m < n \<longrightarrow> key_less kr k))"
  using assms
proof (induction cs arbitrary: b kb)
  case Nil
  then show ?case by (simp add: key_less_irrefl)
next
  case (Cons c cs)
  from Cons.prems obtain k where k: "priority_key c = Inr k"
    and rec: "min_loop (if key_less k kb then (c, k) else (b, kb)) cs = Inr r"
    by (auto split: sum.splits)
  show ?case
  proof (cases "key_less k kb")
    case True
    with rec have "min_loop (c, k) cs = Inr r" by simp
    from Cons.IH[OF this k] obtain n kr where
      n: "n < length (c # cs)" and r: "r = (c # cs) ! n" and kr: "priority_key r = Inr kr"
      and all: "\<forall>m < length (c # cs). \<exists>k'. priority_key ((c # cs) ! m) = Inr k' \<and>
                \<not> key_less k' kr \<and> (m < n \<longrightarrow> key_less kr k')"
      by blast
    from all[rule_format, of 0] k have "\<not> key_less k kr" by simp
    with True have krkb: "key_less kr kb" by (metis key_less_le_trans key_less_asym key_less_trans key_le_trans)
    have "\<forall>m < length (b # c # cs). \<exists>k'. priority_key ((b # c # cs) ! m) = Inr k' \<and>
                \<not> key_less k' kr \<and> (m < Suc n \<longrightarrow> key_less kr k')"
    proof (intro allI impI)
      fix m assume m: "m < length (b # c # cs)"
      show "\<exists>k'. priority_key ((b # c # cs) ! m) = Inr k' \<and>
                \<not> key_less k' kr \<and> (m < Suc n \<longrightarrow> key_less kr k')"
      proof (cases m)
        case 0
        then show ?thesis using Cons.prems(2) krkb key_less_asym by auto
      next
        case (Suc m')
        with m all[rule_format, of m'] show ?thesis by auto
      qed
    qed
    with n r kr show ?thesis by (intro exI[of _ "Suc n"] exI[of _ kr]) auto
  next
    case False
    with rec have "min_loop (b, kb) cs = Inr r" by simp
    from Cons.IH[OF this Cons.prems(2)] obtain n kr where
      n: "n < length (b # cs)" and r: "r = (b # cs) ! n" and kr: "priority_key r = Inr kr"
      and all: "\<forall>m < length (b # cs). \<exists>k'. priority_key ((b # cs) ! m) = Inr k' \<and>
                \<not> key_less k' kr \<and> (m < n \<longrightarrow> key_less kr k')"
      by blast
    from all[rule_format, of 0] Cons.prems(2) have kbkr: "\<not> key_less kb kr" by simp
    have kkr: "\<not> key_less k kr" using False kbkr key_le_trans by blast
    show ?thesis
    proof (cases n)
      case 0
      have "\<forall>m < length (b # c # cs). \<exists>k'. priority_key ((b # c # cs) ! m) = Inr k' \<and>
                \<not> key_less k' kr \<and> (m < 0 \<longrightarrow> key_less kr k')"
      proof (intro allI impI)
        fix m assume m: "m < length (b # c # cs)"
        show "\<exists>k'. priority_key ((b # c # cs) ! m) = Inr k' \<and>
                \<not> key_less k' kr \<and> (m < 0 \<longrightarrow> key_less kr k')"
        proof (cases m)
          case 0
          then show ?thesis using Cons.prems(2) kbkr by auto
        next
          case (Suc m')
          show ?thesis
          proof (cases m')
            case 0
            with Suc k kkr show ?thesis by auto
          next
            case (Suc m'')
            with \<open>m = Suc m'\<close> m all[rule_format, of "Suc m''"] show ?thesis by auto
          qed
        qed
      qed
      with 0 r kr show ?thesis by (intro exI[of _ 0] exI[of _ kr]) auto
    next
      case (Suc n')
      have "\<forall>m < length (b # c # cs). \<exists>k'. priority_key ((b # c # cs) ! m) = Inr k' \<and>
                \<not> key_less k' kr \<and> (m < Suc n \<longrightarrow> key_less kr k')"
      proof (intro allI impI)
        fix m assume m: "m < length (b # c # cs)"
        show "\<exists>k'. priority_key ((b # c # cs) ! m) = Inr k' \<and>
                \<not> key_less k' kr \<and> (m < Suc n \<longrightarrow> key_less kr k')"
        proof (cases m)
          case 0
          then show ?thesis using Cons.prems(2) all[rule_format, of 0] Suc by auto
        next
          case (Suc m')
          show ?thesis
          proof (cases m')
            case 0
            have "key_less kr kb" using all[rule_format, of 0] Cons.prems(2) \<open>n = Suc n'\<close> by auto
            then have "key_less kr k" using False key_less_le_trans by blast
            with 0 Suc k kkr show ?thesis by auto
          next
            case (Suc m'')
            with \<open>m = Suc m'\<close> m all[rule_format, of "Suc m''"] show ?thesis by auto
          qed
        qed
      qed
      with Suc n r kr show ?thesis by (intro exI[of _ "Suc n"] exI[of _ kr]) auto
    qed
  qed
qed


lemma py_min_first_min:
  assumes "py_min cs = Inr r"
  shows "\<exists>n kr. n < length cs \<and> r = cs ! n \<and> priority_key r = Inr kr \<and>
           (\<forall>m < length cs. \<exists>k. priority_key (cs ! m) = Inr k \<and>
                \<not> key_less k kr \<and> (m < n \<longrightarrow> key_less kr k))"
proof (cases cs)
  case Nil
  with assms show ?thesis by (simp add: py_min_def)
next
  case (Cons c cs')
  with assms obtain k where k: "priority_key c = Inr k" and m: "min_loop (c, k) cs' = Inr r"
    by (auto simp: py_min_def split: sum.splits)
  from min_loop_first_min[OF m k] Cons show ?thesis by simp
qed

lemma select_canonical_first_min:
  assumes "select_canonical_version questions indices = Inr (c, q)"
  shows "\<exists>n kc. n < length indices \<and> c = indices ! n \<and> c < length questions \<and>
           q = questions ! c \<and> priority_key (c, q) = Inr kc \<and>
           (\<forall>m < length indices. \<exists>k.
                priority_key (indices ! m, questions ! (indices ! m)) = Inr k \<and>
                \<not> key_less k kc \<and> (m < n \<longrightarrow> key_less kc k))"
proof -
  from assms obtain cs where cs: "candidates_of questions indices = Inr cs"
    and pm: "py_min cs = Inr (c, q)"
    by (auto simp: select_canonical_version_def split: sum.splits)
  from candidates_of_Inr[OF cs] have rng: "\<forall>i\<in>set indices. i < length questions"
    and cs_eq: "cs = map (\<lambda>i. (i, questions ! i)) indices" by auto
  from py_min_first_min[OF pm] obtain n kc where
    n: "n < length cs" and r: "(c, q) = cs ! n" and kc: "priority_key (c, q) = Inr kc"
    and all: "\<forall>m < length cs. \<exists>k. priority_key (cs ! m) = Inr k \<and>
                \<not> key_less k kc \<and> (m < n \<longrightarrow> key_less kc k)"
    by blast
  from n cs_eq have n': "n < length indices" by simp
  with r cs_eq have c: "c = indices ! n" and q: "q = questions ! c" by auto
  from n' rng c have "c < length questions" by auto
  moreover from all cs_eq have "\<forall>m < length indices. \<exists>k.
                priority_key (indices ! m, questions ! (indices ! m)) = Inr k \<and>
                \<not> key_less k kc \<and> (m < n \<longrightarrow> key_less kc k)" by simp
  ultimately show ?thesis using n' c q kc by blast
qed

lemma select_canonical_member:
  "select_canonical_version questions indices = Inr (c, q) \<Longrightarrow>
   c \<in> set indices \<and> c < length questions \<and> q = questions ! c"
  using select_canonical_first_min[of questions indices c q] by auto


lemma priority_key_Inr_iff:
  "(\<exists>k. priority_key (i, q) = Inr k) \<longleftrightarrow> (\<exists>y. year_of q = Inr y)"
  by (auto simp: priority_key_def Let_def split: sum.splits)

lemma priority_key_Inl:
  "priority_key (i, q) = Inl e \<longleftrightarrow> year_of q = Inl e"
  by (auto simp: priority_key_def Let_def split: sum.splits)

lemma py_min_Inl:
  "py_min cs = Inl e \<Longrightarrow> (cs = [] \<and> e = ValueError) \<or> (\<exists>c\<in>set cs. priority_key c = Inl e)"
  by (cases cs) (auto simp: py_min_def split: sum.splits dest: min_loop_error)

lemma py_min_total:
  "cs \<noteq> [] \<Longrightarrow> \<forall>c\<in>set cs. \<exists>k. priority_key c = Inr k \<Longrightarrow> \<exists>r. py_min cs = Inr r"
proof (cases cs)
  case Nil
  then show "cs \<noteq> [] \<Longrightarrow> ?thesis" by simp
next
  case (Cons c cs')
  assume all: "\<forall>c\<in>set cs. \<exists>k. priority_key c = Inr k"
  with Cons obtain k where k: "priority_key c = Inr k" by auto
  from all Cons have "\<forall>c\<in>set cs'. \<exists>k. priority_key c = Inr k" by simp
  from min_loop_total[OF this, of c k] k Cons show ?thesis by (simp add: py_min_def)
qed

lemma select_canonical_total:
  assumes "indices \<noteq> []"
    and "\<forall>i\<in>set indices. i < length questions \<and> (\<exists>y. year_of (questions ! i) = Inr y)"
  shows "\<exists>r. select_canonical_version questions indices = Inr r"
proof -
  let ?cs = "map (\<lambda>i. (i, questions ! i)) indices"
  have cs: "candidates_of questions indices = Inr ?cs"
    using assms(2) by (simp add: candidates_of_in_range)
  have "\<forall>c\<in>set ?cs. \<exists>k. priority_key c = Inr k"
    using assms(2) priority_key_Inr_iff by auto
  moreover have "?cs \<noteq> []" using assms(1) by simp
  ultimately obtain r where "py_min ?cs = Inr r" using py_min_total by blast
  with cs show ?thesis by (simp add: select_canonical_version_def)
qed

lemma select_canonical_year_error:
  assumes "\<forall>i\<in>set indices. i < length questions"
    and "i \<in> set indices" and "year_of (questions ! i) = Inl e"
  shows "\<exists>e' j. j \<in> set indices \<and> year_of (questions ! j) = Inl e' \<and>
           select_canonical_version questions indices = Inl e'"
proof -
  let ?cs = "map (\<lambda>i. (i, questions ! i)) indices"
  have cs: "candidates_of questions indices = Inr ?cs"
    using assms(1) by (simp add: candidates_of_in_range)
  have sel: "select_canonical_version questions indices = py_min ?cs"
    using cs by (simp add: select_canonical_version_def)
  have ne: "?cs \<noteq> []" using assms(2) by auto
  show ?thesis
  proof (cases "py_min ?cs")
    case (Inl e')
    from py_min_Inl[OF Inl] ne obtain c where "c \<in> set ?cs" "priority_key c = Inl e'" by auto
    then obtain j where "j \<in> set indices" "year_of (questions ! j) = Inl e'"
      by (auto simp: priority_key_Inl)
    with Inl sel show ?thesis by auto
  next
    case (Inr r)
    obtain c q where r: "r = (c, q)" by (cases r)
    from Inr sel r have "select_canonical_version questions indices = Inr (c, q)" by simp
    from select_canonical_first_min[OF this] obtain n kc where
      all: "\<forall>m < length indices. \<exists>k.
                priority_key (indices ! m, questions ! (indices ! m)) = Inr k \<and>
                \<not> key_less k kc \<and> (m < n \<longrightarrow> key_less kc k)" by blast
    from assms(2) obtain m where "m < length indices" "indices ! m = i"
      by (auto simp: in_set_conv_nth)
    with all obtain k where "priority_key (i, questions ! i) = Inr k" by auto
    with assms(3) show ?thesis by (simp add: priority_key_def Let_def)
  qed
qed

lemma year_of_falsy: "\<not> truthy (dict_get q ''year'') \<Longrightarrow> year_of q = Inr 9999"
  by (simp add: year_of_def)

lemma year_of_string:
  "dict_get q ''year'' = VStr s \<Longrightarrow> s \<noteq> [] \<Longrightarrow> year_of q = int_of_string s"
  by (auto simp: year_of_def dict_get_def dict_get_default_def split: option.splits)

text \<open>
  Claim C2. Whenever \<^verbatim>\<open>select_canonical_version\<close> returns for a group whose indices
  are in ascending order (as \<^verbatim>\<open>find_duplicates\<close> builds them), the returned index is
  a member of the group, the returned record is the one at that index, no member has a
  smaller composite key (unit is \<^verbatim>\<open>'Unknown'\<close>, year, minus has-metadata, compared
  lexicographically), and every member with a lower index has a strictly larger key: the
  lowest index among the minimal ones wins. For the group
  \<^verbatim>\<open>[{unit: 'Unknown', year: '2020'}, {unit: 'BBIT106', year: '2021'}]\<close> the choice is
  index 1.
\<close>

theorem canonical_is_first_minimum:
  "(select_canonical_version questions indices = Inr (c, q) \<and> sorted_wrt (<) indices \<longrightarrow>
      c \<in> set indices \<and> q = questions ! c \<and>
      (\<exists>kc. priority_key (c, q) = Inr kc \<and>
         (\<forall>i\<in>set indices. \<exists>k. priority_key (i, questions ! i) = Inr k \<and>
              \<not> key_less k kc \<and> (i < c \<longrightarrow> key_less kc k))))
   \<and> select_canonical_version
        [[(''unit'', VStr ''Unknown''), (''year'', VStr ''2020'')],
         [(''unit'', VStr ''BBIT106''), (''year'', VStr ''2021'')]] [0, 1]
      = Inr (1, [(''unit'', VStr ''BBIT106''), (''year'', VStr ''2021'')])"
proof (intro conjI impI)
  assume a: "select_canonical_version questions indices = Inr (c, q) \<and> sorted_wrt (<) indices"
  then have sel: "select_canonical_version questions indices = Inr (c, q)"
    and srt: "sorted_wrt (<) indices" by auto
  from select_canonical_first_min[OF sel] obtain n kc where
    n: "n < length indices" and c: "c = indices ! n" and q: "q = questions ! c"
    and kc: "priority_key (c, q) = Inr kc"
    and all: "\<forall>m < length indices. \<exists>k.
                priority_key (indices ! m, questions ! (indices ! m)) = Inr k \<and>
                \<not> key_less k kc \<and> (m < n \<longrightarrow> key_less kc k)" by blast
  show "c \<in> set indices" using n c by simp
  show "q = questions ! c" by fact
  have "\<forall>i\<in>set indices. \<exists>k. priority_key (i, questions ! i) = Inr k \<and>
              \<not> key_less k kc \<and> (i < c \<longrightarrow> key_less kc k)"
  proof
    fix i assume "i \<in> set indices"
    then obtain m where m: "m < length indices" and i: "i = indices ! m"
      by (auto simp: in_set_conv_nth)
    from all m obtain k where k: "priority_key (indices ! m, questions ! (indices ! m)) = Inr k"
      and le: "\<not> key_less k kc" and lt: "m < n \<longrightarrow> key_less kc k" by blast
    have "i < c \<longrightarrow> m < n"
    proof
      assume "i < c"
      show "m < n"
      proof (rule ccontr)
        assume "\<not> m < n"
        then have "n \<le> m" by simp
        then have "indices ! n \<le> indices ! m"
          using srt m by (cases "n = m") (auto simp: sorted_wrt_iff_nth_less le_less)
        with \<open>i < c\<close> c i show False by simp
      qed
    qed
    with k le lt i show "\<exists>k. priority_key (i, questions ! i) = Inr k \<and>
              \<not> key_less k kc \<and> (i < c \<longrightarrow> key_less kc k)" by auto
  qed
  with kc show "\<exists>kc. priority_key (c, q) = Inr kc \<and>
         (\<forall>i\<in>set indices. \<exists>k. priority_key (i, questions ! i) = Inr k \<and>
              \<not> key_less k kc \<and> (i < c \<longrightarrow> key_less kc k))" by blast
next
  show "select_canonical_version
        [[(''unit'', VStr ''Unknown''), (''year'', VStr ''2020'')],
         [(''unit'', VStr ''BBIT106''), (''year'', VStr ''2021'')]] [0, 1]
      = Inr (1, [(''unit'', VStr ''BBIT106''), (''year'', VStr ''2021'')])"
    by code_simp
qed

theorem canonical_is_first_minimum_witness:
  "select_canonical_version
        [[(''unit'', VStr ''BBIT106''), (''year'', VStr ''2021'')],
         [(''unit'', VStr ''BBIT106''), (''year'', VStr ''2019'')],
         [(''unit'', VStr ''BBIT106''), (''year'', VStr ''2019''), (''metadata'', VDict [(''k'', VInt 1)])],
         [(''unit'', VStr ''BBIT106''), (''year'', VStr ''2019''), (''metadata'', VDict [(''k'', VInt 2)])],
         [(''year'', VStr ''2000'')]] [0, 1, 2, 3, 4]
     = Inr (2, [(''unit'', VStr ''BBIT106''), (''year'', VStr ''2019''), (''metadata'', VDict [(''k'', VInt 1)])])
   \<and> sorted_wrt (<) [0, 1, 2, 3, 4 :: nat]
   \<and> (\<exists>kc. priority_key (2, [(''unit'', VStr ''BBIT106''), (''year'', VStr ''2019''), (''metadata'', VDict [(''k'', VInt 1)])]) = Inr kc \<and>
         (\<forall>i\<in>set [0, 1, 2, 3, 4 :: nat]. \<exists>k. priority_key (i, 
        [[(''unit'', VStr ''BBIT106''), (''year'', VStr ''2021'')],
         [(''unit'', VStr ''BBIT106''), (''year'', VStr ''2019'')],
         [(''unit'', VStr ''BBIT106''), (''year'', VStr ''2019''), (''metadata'', VDict [(''k'', VInt 1)])],
         [(''unit'', VStr ''BBIT106''), (''year'', VStr ''2019''), (''metadata'', VDict [(''k'', VInt 2)])],
         [(''year'', VStr ''2000'')]] ! i) = Inr k \<and>
              \<not> key_less k kc \<and> (i < 2 \<longrightarrow> key_less kc k)))"
proof -
  have sel: "select_canonical_version
        [[(''unit'', VStr ''BBIT106''), (''year'', VStr ''2021'')],
         [(''unit'', VStr ''BBIT106''), (''year'', VStr ''2019'')],
         [(''unit'', VStr ''BBIT106''), (''year'', VStr ''2019''), (''metadata'', VDict [(''k'', VInt 1)])],
         [(''unit'', VStr ''BBIT106''), (''year'', VStr ''2019''), (''metadata'', VDict [(''k'', VInt 2)])],
         [(''year'', VStr ''2000'')]] [0, 1, 2, 3, 4]
     = Inr (2, [(''unit'', VStr ''BBIT106''), (''year'', VStr ''2019''), (''metadata'', VDict [(''k'', VInt 1)])])"
    by code_simp
  have srt: "sorted_wrt (<) [0, 1, 2, 3, 4 :: nat]" by simp
  from canonical_is_first_minimum[THEN conjunct1, rule_format, OF conjI [OF sel srt]] sel srt
  show ?thesis by blast
qed


section \<open>Provenance merging\<close>

lemma set_foldl_years_add: "set (foldl years_add acc xs) = set acc \<union> set xs"
  by (induction xs arbitrary: acc) (auto simp: years_add_def)

lemma distinct_foldl_years_add: "distinct acc \<Longrightarrow> distinct (foldl years_add acc xs)"
  by (induction xs arbitrary: acc) (auto simp: years_add_def)

lemma sort_foldl_years_add: "sort (foldl years_add [] xs) = sort (remdups xs)"
proof (rule sorted_distinct_set_unique)
  show "distinct (sort (foldl years_add [] xs))" by (simp add: distinct_foldl_years_add)
  show "set (sort (foldl years_add [] xs)) = set (sort (remdups xs))"
    by (simp add: set_foldl_years_add)
qed simp_all

lemma set_add_string:
  "set_add (map VStr fs) (VStr s) = Inr (map VStr (years_add fs s))"
proof -
  have "list_ex (\<lambda>y. py_eq y (VStr s)) (map VStr fs) \<longleftrightarrow> s \<in> set fs"
    by (auto simp: list_ex_iff py_eq_def)
  then show ?thesis by (simp add: set_add_def years_add_def)
qed

lemma py_sorted_strings: "py_sorted (map VStr fs) = Inr (map VStr (sort fs))"
proof (cases "length fs \<le> 1")
  case True
  then have "sort fs = fs" by (cases fs) (auto simp: length_Suc_conv)
  with True show ?thesis by (simp add: py_sorted_def)
next
  case False
  have "list_all is_str (map VStr fs)" by (simp add: list_all_iff)
  moreover have "map str_of (map VStr fs) = fs" by (simp add: comp_def)
  ultimately show ?thesis using False by (simp add: py_sorted_def)
qed

lemma merge_loop_ok:
  assumes "\<forall>i\<in>set indices. i < length questions \<and>
             (truthy (dict_get (questions ! i) ''year'') \<longrightarrow>
                (\<exists>s. py_str (dict_get (questions ! i) ''year'') = Inr s)) \<and>
             (truthy (dict_get (questions ! i) ''source_file'') \<longrightarrow>
                is_str (dict_get (questions ! i) ''source_file''))"
  shows "merge_loop questions indices (sources, years, map VStr fs) =
     Inr (sources @ map (\<lambda>i. source_entry (questions ! i) i) indices,
          foldl years_add years
            (year_strings (map (\<lambda>i. dict_get (questions ! i) ''year'') indices)),
          map VStr (foldl years_add fs
            (file_strings (map (\<lambda>i. dict_get (questions ! i) ''source_file'') indices))))"
  using assms
proof (induction indices arbitrary: sources years fs)
  case Nil
  then show ?case by (simp add: year_strings_def file_strings_def)
next
  case (Cons i indices)
  let ?q = "questions ! i"
  let ?y = "dict_get ?q ''year''"
  let ?f = "dict_get ?q ''source_file''"
  from Cons.prems have i: "i < length questions"
    and y: "truthy ?y \<longrightarrow> (\<exists>s. py_str ?y = Inr s)"
    and f: "truthy ?f \<longrightarrow> is_str ?f"
    and rest: "\<forall>i\<in>set indices. i < length questions \<and>
             (truthy (dict_get (questions ! i) ''year'') \<longrightarrow>
                (\<exists>s. py_str (dict_get (questions ! i) ''year'') = Inr s)) \<and>
             (truthy (dict_get (questions ! i) ''source_file'') \<longrightarrow>
                is_str (dict_get (questions ! i) ''source_file''))"
    by auto
  have ystep: "(if truthy ?y
                then (case py_str ?y of Inl e \<Rightarrow> Inl e | Inr s \<Rightarrow> Inr (years_add years s))
                else Inr years) = Inr (foldl years_add years (year_strings [?y]))"
    using y by (auto simp: year_strings_def)
  have fstep: "(if truthy ?f then set_add (map VStr fs) ?f else Inr (map VStr fs))
                = Inr (map VStr (foldl years_add fs (file_strings [?f])))"
  proof (cases "truthy ?f")
    case True
    with f obtain s where s: "?f = VStr s" by (cases ?f) auto
    with True have "s \<noteq> []" by simp
    with s True show ?thesis by (simp add: set_add_string file_strings_def)
  next
    case False
    then have "file_strings [?f] = []" by (cases ?f) (auto simp: file_strings_def)
    with False show ?thesis by simp
  qed
  have ys: "year_strings (map (\<lambda>i. dict_get (questions ! i) ''year'') (i # indices))
      = year_strings [?y] @ year_strings (map (\<lambda>i. dict_get (questions ! i) ''year'') indices)"
    by (simp add: year_strings_def)
  have fss: "file_strings (map (\<lambda>i. dict_get (questions ! i) ''source_file'') (i # indices))
      = file_strings [?f] @ file_strings (map (\<lambda>i. dict_get (questions ! i) ''source_file'') indices)"
    by (simp add: file_strings_def)
  show ?case
    unfolding merge_loop.simps ys fss
    using i Cons.IH[OF rest] by (simp add: questions_at_def Let_def ystep fstep)
qed

lemma merge_sources_ok:
  assumes "\<forall>i\<in>set indices. i < length questions \<and>
             (truthy (dict_get (questions ! i) ''year'') \<longrightarrow>
                (\<exists>s. py_str (dict_get (questions ! i) ''year'') = Inr s)) \<and>
             (truthy (dict_get (questions ! i) ''source_file'') \<longrightarrow>
                is_str (dict_get (questions ! i) ''source_file''))"
  shows "merge_sources questions indices = Inr
     [(''source_pdfs'', VList (map VStr (sort (remdups
          (file_strings (map (\<lambda>i. dict_get (questions ! i) ''source_file'') indices)))))),
      (''years_found'', VList (map VStr (sort (remdups
          (year_strings (map (\<lambda>i. dict_get (questions ! i) ''year'') indices)))))),
      (''all_sources'', VList (map (\<lambda>i. source_entry (questions ! i) i) indices)),
      (''duplicate_count'', VInt (int (length indices)))]"
  using merge_loop_ok[OF assms, of "[]" "[]" "[]"]
  by (simp add: merge_sources_def py_sorted_strings sort_foldl_years_add)

section \<open>Years and short groups\<close>

lemma select_canonical_empty: "select_canonical_version questions [] = Inl ValueError"
  by (simp add: select_canonical_version_def py_min_def)

lemma merge_sources_empty:
  "merge_sources questions [] =
     Inr [(''source_pdfs'', VList []), (''years_found'', VList []),
          (''all_sources'', VList []), (''duplicate_count'', VInt 0)]"
  by (simp add: merge_sources_def py_sorted_def)

lemma select_canonical_singleton:
  assumes "i < length questions" and "year_of (questions ! i) = Inr y"
  shows "select_canonical_version questions [i] = Inr (i, questions ! i)"
  using assms
  by (simp add: select_canonical_version_def questions_at_def py_min_def priority_key_def Let_def)

text \<open>
  Claim C3, as the code has it. A year that is absent or falsy (\<^verbatim>\<open>None\<close>, the empty
  string, zero) counts as 9999 and a non-empty string year counts as \<^verbatim>\<open>int\<close> reads
  it. The selection returns for a non-empty group in range whose years all convert, and
  raises the conversion error of a member as soon as one year does not convert; for a
  string that error is \<^verbatim>\<open>ValueError\<close>.
\<close>

theorem year_sentinel_and_conversion:
  "(\<not> truthy (dict_get q ''year'') \<longrightarrow> year_of q = Inr 9999) \<and>
   (dict_get q ''year'' = VStr s \<and> s \<noteq> [] \<longrightarrow> year_of q = int_of_string s) \<and>
   (int_of_string s = Inl e \<longrightarrow> e = ValueError) \<and>
   (indices \<noteq> [] \<and>
    (\<forall>i\<in>set indices. i < length questions \<and> (\<exists>y. year_of (questions ! i) = Inr y)) \<longrightarrow>
      (\<exists>r. select_canonical_version questions indices = Inr r)) \<and>
   ((\<forall>i\<in>set indices. i < length questions) \<and>
    (\<exists>i\<in>set indices. \<exists>e. year_of (questions ! i) = Inl e) \<longrightarrow>
      (\<exists>e' j. j \<in> set indices \<and> year_of (questions ! j) = Inl e' \<and>
         select_canonical_version questions indices = Inl e'))"
proof (intro conjI impI)
  show "int_of_string s = Inl e \<Longrightarrow> e = ValueError"
    by (auto simp: int_of_string_def Let_def split: if_splits)
qed (use year_of_falsy[of q] year_of_string[of q s]
    select_canonical_total[of indices questions]
    select_canonical_year_error[of indices questions] in blast)+

theorem year_sentinel_and_conversion_witness:
  "year_of [(''unit'', VStr ''BBIT106'')] = Inr 9999 \<and>
   year_of [(''unit'', VStr ''BBIT106''), (''year'', VStr ''2019'')] = Inr 2019 \<and>
   int_of_string ''abc'' = Inl ValueError \<and>
   (\<exists>r. select_canonical_version
          [[(''unit'', VStr ''BBIT106'')], [(''unit'', VStr ''BBIT106''), (''year'', VStr ''2019'')]]
          [0, 1] = Inr r) \<and>
   (\<exists>e' j. j \<in> set [0, 1] \<and>
      year_of ([[(''unit'', VStr ''BBIT106''), (''year'', VStr ''abc'')],
                [(''unit'', VStr ''BBIT106''), (''year'', VStr ''2019'')]] ! j) = Inl e' \<and>
      select_canonical_version
          [[(''unit'', VStr ''BBIT106''), (''year'', VStr ''abc'')],
           [(''unit'', VStr ''BBIT106''), (''year'', VStr ''2019'')]] [0, 1] = Inl e')"
proof -
  let ?a = "[(''unit'', VStr ''BBIT106'')] :: pydict"
  let ?b = "[(''unit'', VStr ''BBIT106''), (''year'', VStr ''2019'')] :: pydict"
  let ?c = "[(''unit'', VStr ''BBIT106''), (''year'', VStr ''abc'')] :: pydict"
  have h1: "\<not> truthy (dict_get ?a ''year'')" by (simp add: dict_get_def)
  have h2: "dict_get ?b ''year'' = VStr ''2019'' \<and> ''2019'' \<noteq> []" by (simp add: dict_get_def)
  have v2: "int_of_string ''2019'' = Inr 2019" by code_simp
  have h3: "int_of_string ''abc'' = Inl ValueError" by code_simp
  have ya: "year_of ?a = Inr 9999" by code_simp
  have yb: "year_of ?b = Inr 2019" by code_simp
  have yc: "year_of ?c = Inl ValueError" by code_simp
  have h4: "[0, 1 :: nat] \<noteq> [] \<and>
    (\<forall>i\<in>set [0, 1]. i < length [?a, ?b] \<and> (\<exists>y. year_of ([?a, ?b] ! i) = Inr y))"
    using ya yb by simp
  have h5: "(\<forall>i\<in>set [0, 1 :: nat]. i < length [?c, ?b]) \<and>
    (\<exists>i\<in>set [0, 1 :: nat]. \<exists>e. year_of ([?c, ?b] ! i) = Inl e)"
    using yc by simp
  note t1 = year_sentinel_and_conversion[of ?a "''2019''" ValueError "[0, 1]" "[?a, ?b]"]
  note t2 = year_sentinel_and_conversion[of ?b "''2019''" ValueError "[0, 1]" "[?c, ?b]"]
  note t3 = year_sentinel_and_conversion[of ?b "''abc''" ValueError "[0, 1]" "[?c, ?b]"]
  from t1 h1 have c1: "year_of ?a = Inr 9999" by blast
  from t2 h2 v2 have c2: "year_of ?b = Inr 2019" by simp
  from t3 h3 have c3: "int_of_string ''abc'' = Inl ValueError" by blast
  from t1 h4 have c4: "\<exists>r. select_canonical_version [?a, ?b] [0, 1] = Inr r" by blast
  from t2 h5 have c5: "\<exists>e' j. j \<in> set [0, 1] \<and> year_of ([?c, ?b] ! j) = Inl e' \<and>
         select_canonical_version [?c, ?b] [0, 1] = Inl e'" by blast
  from c1 c2 c3 c4 c5 show ?thesis by blast
qed

text \<open>A group with the year \<^verbatim>\<open>'abc'\<close>: the selection raises instead of ranking the
  record last.\<close>

theorem non_numeric_year_raises:
  "select_canonical_version
      [[(''unit'', VStr ''BBIT106''), (''year'', VStr ''abc'')],
       [(''unit'', VStr ''BBIT106''), (''year'', VStr ''2019'')]] [0, 1] = Inl ValueError"
  by code_simp

text \<open>
  Claim C8, as the code has it. The engine has no error of its own for a short group.
  With an empty index list \<^verbatim>\<open>select_canonical_version\<close> raises the
  \<^verbatim>\<open>ValueError\<close> of \<^verbatim>\<open>min\<close> and \<^verbatim>\<open>merge_sources\<close> returns the structure with
  empty lists and \<^verbatim>\<open>duplicate_count\<close> 0. With a single index in range,
  \<^verbatim>\<open>select_canonical_version\<close> returns that index and its record when the year
  converts, and \<^verbatim>\<open>merge_sources\<close> returns a structure with one source entry and
  \<^verbatim>\<open>duplicate_count\<close> 1 when the year converts to a string and the source file is a
  string or falsy.
\<close>

theorem short_group_results:
  "select_canonical_version questions [] = Inl ValueError \<and>
   merge_sources questions [] =
     Inr [(''source_pdfs'', VList []), (''years_found'', VList []),
          (''all_sources'', VList []), (''duplicate_count'', VInt 0)] \<and>
   (i < length questions \<and> year_of (questions ! i) = Inr y \<longrightarrow>
      select_canonical_version questions [i] = Inr (i, questions ! i)) \<and>
   (i < length questions \<and>
    (truthy (dict_get (questions ! i) ''year'') \<longrightarrow>
       (\<exists>s. py_str (dict_get (questions ! i) ''year'') = Inr s)) \<and>
    (truthy (dict_get (questions ! i) ''source_file'') \<longrightarrow>
       is_str (dict_get (questions ! i) ''source_file'')) \<longrightarrow>
      (\<exists>m. merge_sources questions [i] = Inr m \<and>
           dict_get m ''all_sources'' = VList [source_entry (questions ! i) i] \<and>
           dict_get m ''duplicate_count'' = VInt 1))"
proof (intro conjI impI)
  assume a: "i < length questions \<and>
    (truthy (dict_get (questions ! i) ''year'') \<longrightarrow>
       (\<exists>s. py_str (dict_get (questions ! i) ''year'') = Inr s)) \<and>
    (truthy (dict_get (questions ! i) ''source_file'') \<longrightarrow>
       is_str (dict_get (questions ! i) ''source_file''))"
  then have "\<forall>i\<in>set [i]. i < length questions \<and>
             (truthy (dict_get (questions ! i) ''year'') \<longrightarrow>
                (\<exists>s. py_str (dict_get (questions ! i) ''year'') = Inr s)) \<and>
             (truthy (dict_get (questions ! i) ''source_file'') \<longrightarrow>
                is_str (dict_get (questions ! i) ''source_file''))" by simp
  from merge_sources_ok[OF this]
  show "\<exists>m. merge_sources questions [i] = Inr m \<and>
           dict_get m ''all_sources'' = VList [source_entry (questions ! i) i] \<and>
           dict_get m ''duplicate_count'' = VInt 1"
    by (simp add: dict_get_def)
qed (simp_all add: select_canonical_empty merge_sources_empty select_canonical_singleton)

theorem short_group_results_witness:
  "select_canonical_version [[(''question'', VStr ''q''), (''year'', VStr ''2020'')]] [0]
     = Inr (0, [(''question'', VStr ''q''), (''year'', VStr ''2020'')]) \<and>
   (\<exists>m. merge_sources [[(''question'', VStr ''q''), (''year'', VStr ''2020'')]] [0] = Inr m \<and>
        dict_get m ''duplicate_count'' = VInt 1)"
proof -
  let ?q = "[(''question'', VStr ''q''), (''year'', VStr ''2020'')] :: pydict"
  have y: "year_of ([?q] ! 0) = Inr 2020" by code_simp
  have h1: "0 < length [?q] \<and> year_of ([?q] ! 0) = Inr 2020" using y by simp
  have s: "py_str (dict_get ([?q] ! 0) ''year'') = Inr ''2020''" by code_simp
  have f: "\<not> truthy (dict_get ([?q] ! 0) ''source_file'')" by code_simp
  have h2: "0 < length [?q] \<and>
    (truthy (dict_get ([?q] ! 0) ''year'') \<longrightarrow>
       (\<exists>s. py_str (dict_get ([?q] ! 0) ''year'') = Inr s)) \<and>
    (truthy (dict_get ([?q] ! 0) ''source_file'') \<longrightarrow>
       is_str (dict_get ([?q] ! 0) ''source_file''))"
    using s f by simp
  note t = short_group_results[of "[?q]" 0 2020]
  from t h1 have c1: "select_canonical_version [?q] [0] = Inr (0, [?q] ! 0)" by blast
  from t h2 have c2: "\<exists>m. merge_sources [?q] [0] = Inr m \<and>
           dict_get m ''all_sources'' = VList [source_entry ([?q] ! 0) 0] \<and>
           dict_get m ''duplicate_count'' = VInt 1" by blast
  from c1 c2 show ?thesis by auto
qed

text \<open>A singleton group gives results, not an error.\<close>

theorem short_group_returns:
  "select_canonical_version [[(''question'', VStr ''q'')]] [0]
     = Inr (0, [(''question'', VStr ''q'')]) \<and>
   merge_sources [[(''question'', VStr ''q'')]] [0] = Inr
     [(''source_pdfs'', VList []), (''years_found'', VList []),
      (''all_sources'', VList [VDict [(''year'', VNone), (''source_file'', VNone),
          (''question_number'', VNone), (''original_index'', VInt 0)]]),
      (''duplicate_count'', VInt 1)]"
  by code_simp

section \<open>The merged structure\<close>

text \<open>
  Claim C6, as the code has it. For a group in range whose truthy years convert to
  strings and whose truthy source files are strings, \<^verbatim>\<open>merge_sources\<close> returns:
  \<^verbatim>\<open>all_sources\<close> with one entry per index, in input order, carrying the record's
  year, source file and question number as \<^verbatim>\<open>get\<close> reads them (\<^verbatim>\<open>None\<close> when
  absent) and the index; \<^verbatim>\<open>source_pdfs\<close> and \<^verbatim>\<open>years_found\<close> as the sorted lists,
  without repetition, of the truthy source files and of the strings of the truthy years
  (an empty string, like an absent value, is not listed); and \<^verbatim>\<open>duplicate_count\<close>
  as the number of indices.
\<close>

theorem merge_sources_structure:
  assumes "\<forall>i\<in>set indices. i < length questions \<and>
             (truthy (dict_get (questions ! i) ''year'') \<longrightarrow>
                (\<exists>s. py_str (dict_get (questions ! i) ''year'') = Inr s)) \<and>
             (truthy (dict_get (questions ! i) ''source_file'') \<longrightarrow>
                is_str (dict_get (questions ! i) ''source_file''))"
  shows "merge_sources questions indices = Inr
     [(''source_pdfs'', VList (map VStr (sort (remdups
          (file_strings (map (\<lambda>i. dict_get (questions ! i) ''source_file'') indices)))))),
      (''years_found'', VList (map VStr (sort (remdups
          (year_strings (map (\<lambda>i. dict_get (questions ! i) ''year'') indices)))))),
      (''all_sources'', VList (map (\<lambda>i. source_entry (questions ! i) i) indices)),
      (''duplicate_count'', VInt (int (length indices)))]"
  using assms by (rule merge_sources_ok)

theorem merge_sources_structure_witness:
  "merge_sources
     [[(''year'', VStr ''2021''), (''source_file'', VStr ''paper_b.pdf'')],
      [(''year'', VStr ''2020''), (''source_file'', VStr ''paper_a.pdf''), (''question_number'', VStr ''3'')],
      [(''source_file'', VStr ''paper_a.pdf'')],
      [(''year'', VStr ''2021''), (''source_file'', VStr ''paper_a.pdf'')]] [0, 1, 2, 3]
   = Inr
     [(''source_pdfs'', VList [VStr ''paper_a.pdf'', VStr ''paper_b.pdf'']),
      (''years_found'', VList [VStr ''2020'', VStr ''2021'']),
      (''all_sources'', VList
        [VDict [(''year'', VStr ''2021''), (''source_file'', VStr ''paper_b.pdf''),
                (''question_number'', VNone), (''original_index'', VInt 0)],
         VDict [(''year'', VStr ''2020''), (''source_file'', VStr ''paper_a.pdf''),
                (''question_number'', VStr ''3''), (''original_index'', VInt 1)],
         VDict [(''year'', VNone), (''source_file'', VStr ''paper_a.pdf''),
                (''question_number'', VNone), (''original_index'', VInt 2)],
         VDict [(''year'', VStr ''2021''), (''source_file'', VStr ''paper_a.pdf''),
                (''question_number'', VNone), (''original_index'', VInt 3)]]),
      (''duplicate_count'', VInt 4)]"
proof -
  let ?qs = "[[(''year'', VStr ''2021''), (''source_file'', VStr ''paper_b.pdf'')],
      [(''year'', VStr ''2020''), (''source_file'', VStr ''paper_a.pdf''), (''question_number'', VStr ''3'')],
      [(''source_file'', VStr ''paper_a.pdf'')],
      [(''year'', VStr ''2021''), (''source_file'', VStr ''paper_a.pdf'')]] :: pydict list"
  have h: "\<forall>i\<in>set [0, 1, 2, 3 :: nat]. i < length ?qs \<and>
             (truthy (dict_get (?qs ! i) ''year'') \<longrightarrow>
                (\<exists>s. py_str (dict_get (?qs ! i) ''year'') = Inr s)) \<and>
             (truthy (dict_get (?qs ! i) ''source_file'') \<longrightarrow>
                is_str (dict_get (?qs ! i) ''source_file''))"
    by (simp add: dict_get_def py_str_def)
  have r: "[(''source_pdfs'', VList (map VStr (sort (remdups
          (file_strings (map (\<lambda>i. dict_get (?qs ! i) ''source_file'') [0, 1, 2, 3 :: nat])))))),
      (''years_found'', VList (map VStr (sort (remdups
          (year_strings (map (\<lambda>i. dict_get (?qs ! i) ''year'') [0, 1, 2, 3 :: nat])))))),
      (''all_sources'', VList (map (\<lambda>i. source_entry (?qs ! i) i) [0, 1, 2, 3 :: nat])),
      (''duplicate_count'', VInt (int (length [0, 1, 2, 3 :: nat])))]
    = [(''source_pdfs'', VList [VStr ''paper_a.pdf'', VStr ''paper_b.pdf'']),
      (''years_found'', VList [VStr ''2020'', VStr ''2021'']),
      (''all_sources'', VList
        [VDict [(''year'', VStr ''2021''), (''source_file'', VStr ''paper_b.pdf''),
                (''question_number'', VNone), (''original_index'', VInt 0)],
         VDict [(''year'', VStr ''2020''), (''source_file'', VStr ''paper_a.pdf''),
                (''question_number'', VStr ''3''), (''original_index'', VInt 1)],
         VDict [(''year'', VNone), (''source_file'', VStr ''paper_a.pdf''),
                (''question_number'', VNone), (''original_index'', VInt 2)],
         VDict [(''year'', VStr ''2021''), (''source_file'', VStr ''paper_a.pdf''),
                (''question_number'', VNone), (''original_index'', VInt 3)]]),
      (''duplicate_count'', VInt 4)]"
    by code_simp
  from merge_sources_structure[OF h] r show ?thesis by simp
qed

text \<open>A year that is present but empty is not listed in \<^verbatim>\<open>years_found\<close>.\<close>

theorem empty_year_not_listed:
  "merge_sources [[(''year'', VStr '''')], [(''year'', VStr ''2020'')]] [0, 1] = Inr
     [(''source_pdfs'', VList []),
      (''years_found'', VList [VStr ''2020'']),
      (''all_sources'', VList
         [VDict [(''year'', VStr ''''), (''source_file'', VNone),
                 (''question_number'', VNone), (''original_index'', VInt 0)],
          VDict [(''year'', VStr ''2020''), (''source_file'', VNone),
                 (''question_number'', VNone), (''original_index'', VInt 1)]]),
      (''duplicate_count'', VInt 2)]"
  by code_simp

section \<open>Grouping\<close>

lemma positions_snoc:
  "positions u (ts @ [t]) = positions u ts @ (if t = u then [length ts] else [])"
proof -
  have "filter (\<lambda>i. (ts @ [t]) ! i = u) [0..<length ts] = filter (\<lambda>i. ts ! i = u) [0..<length ts]"
    by (rule filter_cong) (auto simp: nth_append)
  then show ?thesis by (simp add: positions_def)
qed

lemma set_positions: "set (positions t ts) = {i. i < length ts \<and> ts ! i = t}"
  by (auto simp: positions_def)

lemma positions_empty_iff: "positions t ts = [] \<longleftrightarrow> t \<notin> set ts"
  by (auto simp: positions_def filter_empty_conv in_set_conv_nth)

lemma sorted_positions: "sorted_wrt (<) (positions t ts)"
  by (simp add: positions_def sorted_wrt_filter)

lemma distinct_positions: "distinct (positions t ts)"
  by (simp add: positions_def)

lemma first_order_snoc:
  "first_order (ts @ [t]) = (if t \<in> set ts then first_order ts else first_order ts @ [t])"
  by (simp add: first_order_def)

lemma set_first_order: "set (first_order ts) = set ts"
  by (simp add: first_order_def)

lemma distinct_first_order: "distinct (first_order ts)"
  by (simp add: first_order_def)

lemma append_index_present:
  "distinct ks \<Longrightarrow> t \<in> set ks \<Longrightarrow>
   append_index (map (\<lambda>u. (u, f u)) ks) t i = map (\<lambda>u. (u, if u = t then f u @ [i] else f u)) ks"
  by (induction ks) auto

lemma append_index_absent:
  "t \<notin> set ks \<Longrightarrow> append_index (map (\<lambda>u. (u, f u)) ks) t i = map (\<lambda>u. (u, f u)) ks @ [(t, [i])]"
  by (induction ks) auto

lemma group_spec_snoc: "append_index (group_spec ts) t (length ts) = group_spec (ts @ [t])"
proof (cases "t \<in> set ts")
  case True
  then have "t \<in> set (first_order ts)" by (simp add: set_first_order)
  then show ?thesis
    using True
    by (simp add: group_spec_def first_order_snoc append_index_present distinct_first_order
        positions_snoc cong: map_cong)
next
  case False
  then have nin: "t \<notin> set (first_order ts)" by (simp add: set_first_order)
  have "positions t ts = []" using False by (simp add: positions_empty_iff)
  moreover have "map (\<lambda>u. (u, positions u (ts @ [t]))) (first_order ts)
      = map (\<lambda>u. (u, positions u ts)) (first_order ts)"
    using nin by (intro map_cong) (auto simp: positions_snoc)
  ultimately show ?thesis
    using False nin
    by (simp add: group_spec_def first_order_snoc append_index_absent positions_snoc)
qed

lemma foldl_append_index:
  "foldl (\<lambda>a it. append_index a (snd it) (fst it)) [] (enumerate 0 ts) = group_spec ts"
proof (induction ts rule: rev_induct)
  case Nil
  then show ?case by (simp add: group_spec_def first_order_def)
next
  case (snoc t ts)
  then show ?case by (simp add: enumerate_append_eq group_spec_snoc)
qed

lemma group_loop_ok:
  "map question_text qs = map Inr ts \<Longrightarrow>
   group_loop acc (enumerate n qs)
     = Inr (foldl (\<lambda>a it. append_index a (snd it) (fst it)) acc (enumerate n ts))"
proof (induction qs arbitrary: acc n ts)
  case Nil
  then show ?case by simp
next
  case (Cons q qs)
  then obtain t ts' where ts: "ts = t # ts'" and t: "question_text q = Inr t"
    and rest: "map question_text qs = map Inr ts'" by (cases ts) auto
  from t have "strip_value (dict_get_default q ''question'' (VStr [])) = Inr t"
    by (simp add: question_text_def)
  with Cons.IH[OF rest] ts show ?case by simp
qed

lemma group_loop_error:
  "group_loop acc iqs = Inl e \<Longrightarrow> \<exists>iq\<in>set iqs. question_text (snd iq) = Inl e"
  by (induction iqs arbitrary: acc) (auto simp: question_text_def split: sum.splits)

lemma group_loop_Inr_texts:
  "group_loop acc iqs = Inr r \<Longrightarrow> \<forall>iq\<in>set iqs. \<exists>t. question_text (snd iq) = Inr t"
  by (induction iqs arbitrary: acc) (auto simp: question_text_def split: sum.splits)

lemma texts_exist:
  assumes "\<forall>q\<in>set qs. \<exists>t. question_text q = Inr t"
  shows "\<exists>ts. map question_text qs = map Inr ts"
  using assms
proof (induction qs)
  case Nil
  then show ?case by simp
next
  case (Cons q qs)
  then obtain t ts where "question_text q = Inr t" "map question_text qs = map Inr ts" by auto
  then have "map question_text (q # qs) = map Inr (t # ts)" by simp
  then show ?case by blast
qed

lemma find_duplicates_ok:
  "map question_text qs = map Inr ts \<Longrightarrow>
   find_duplicates qs = Inr (filter (\<lambda>p. 1 < length (snd p)) (group_spec ts))"
  by (simp add: find_duplicates_def group_loop_ok foldl_append_index)

lemma find_duplicates_Inr:
  assumes "find_duplicates qs = Inr gs"
  shows "\<exists>ts. map question_text qs = map Inr ts \<and>
           gs = filter (\<lambda>p. 1 < length (snd p)) (group_spec ts)"
proof -
  from assms obtain r where r: "group_loop [] (enumerate 0 qs) = Inr r"
    by (auto simp: find_duplicates_def split: sum.splits)
  have "\<forall>q\<in>set qs. \<exists>t. question_text q = Inr t"
  proof
    fix q assume "q \<in> set qs"
    then obtain i where "i < length qs" "qs ! i = q" by (auto simp: in_set_conv_nth)
    then have "(i, q) \<in> set (enumerate 0 qs)" by (auto simp: in_set_enumerate_eq)
    with group_loop_Inr_texts[OF r] show "\<exists>t. question_text q = Inr t" by fastforce
  qed
  then obtain ts where ts: "map question_text qs = map Inr ts" using texts_exist by blast
  with find_duplicates_ok[OF ts] assms show ?thesis by auto
qed

lemma find_duplicates_Inl:
  "find_duplicates qs = Inl e \<Longrightarrow> e = AttributeError \<and> (\<exists>q\<in>set qs. question_text q = Inl e)"
proof -
  assume "find_duplicates qs = Inl e"
  then have "group_loop [] (enumerate 0 qs) = Inl e"
    by (auto simp: find_duplicates_def split: sum.splits)
  from group_loop_error[OF this] obtain iq where iq: "iq \<in> set (enumerate 0 qs)"
    "question_text (snd iq) = Inl e" by blast
  from iq(1) have "fst iq < length qs" and "qs ! fst iq = snd iq"
    by (simp_all add: in_set_enumerate_eq)
  then have "snd iq \<in> set qs" using nth_mem by fastforce
  moreover have "e = AttributeError"
    using iq(2) by (cases "dict_get_default (snd iq) ''question'' (VStr [])")
      (auto simp: question_text_def)
  ultimately show ?thesis using iq(2) by blast
qed

section \<open>The two passes\<close>

lemma distinct_concat_positions:
  "distinct ks \<Longrightarrow> distinct (concat (map (\<lambda>t. positions t ts) ks))"
  by (induction ks) (auto simp: distinct_positions set_positions)

lemma distinct_concat_filter:
  "distinct (concat xss) \<Longrightarrow> distinct (concat (filter P xss))"
  by (induction xss) auto

lemma groups_disjoint:
  "distinct (concat (map snd (filter (\<lambda>p. 1 < length (snd p)) (group_spec ts))))"
proof -
  have "map snd (filter (\<lambda>p. 1 < length (snd p)) (group_spec ts))
      = filter (\<lambda>is. 1 < length is) (map snd (group_spec ts))"
    by (simp add: filter_map comp_def)
  moreover have "map snd (group_spec ts) = map (\<lambda>t. positions t ts) (first_order ts)"
    by (simp add: group_spec_def comp_def)
  ultimately show ?thesis
    by (simp add: distinct_concat_filter distinct_concat_positions distinct_first_order)
qed

lemma group_members_in_range:
  "i \<in> set (concat (map snd (filter P (group_spec ts)))) \<Longrightarrow> i < length ts"
  by (auto simp: group_spec_def set_positions)

lemma candidates_of_cong:
  "length qs = length qs0 \<Longrightarrow> \<forall>i\<in>set is. i < length qs0 \<longrightarrow> qs ! i = qs0 ! i \<Longrightarrow>
   candidates_of qs is = candidates_of qs0 is"
proof (induction "is")
  case Nil
  then show ?case by simp
next
  case (Cons i "is")
  then have q: "questions_at qs i = questions_at qs0 i" by (simp add: questions_at_def)
  have rest: "candidates_of qs is = candidates_of qs0 is" using Cons by simp
  show ?case unfolding candidates_of.simps q rest ..
qed

lemma merge_loop_cong:
  "length qs = length qs0 \<Longrightarrow> \<forall>i\<in>set is. i < length qs0 \<longrightarrow> qs ! i = qs0 ! i \<Longrightarrow>
   merge_loop qs is st = merge_loop qs0 is st"
proof (induction "is" arbitrary: st)
  case Nil
  then show ?case by simp
next
  case (Cons i "is")
  then have q: "questions_at qs i = questions_at qs0 i" by (simp add: questions_at_def)
  have rest: "\<And>st. merge_loop qs is st = merge_loop qs0 is st"
    using Cons by simp
  show ?case unfolding merge_loop.simps q rest ..
qed

lemma enhance_cong:
  assumes "length qs = length qs0" and "\<forall>i\<in>set is. i < length qs0 \<longrightarrow> qs ! i = qs0 ! i"
  shows "enhance qs is = enhance qs0 is"
proof -
  have s: "select_canonical_version qs is = select_canonical_version qs0 is"
    by (simp add: select_canonical_version_def candidates_of_cong[OF assms])
  have m: "merge_sources qs is = merge_sources qs0 is"
    by (simp add: merge_sources_def merge_loop_cong[OF assms])
  show ?thesis unfolding enhance_def s m ..
qed

lemma enhance_Inr:
  assumes "enhance qs is = Inr r"
  shows "\<exists>cq. select_canonical_version qs is = Inr (fst r, cq) \<and>
           merge_sources qs is = Inr (snd (snd (snd r))) \<and>
           write_metadata cq (setitem cq ''source_metadata'' (VDict (snd (snd (snd r)))))
               [(''source_pdfs'', dict_get (snd (snd (snd r))) ''source_pdfs''),
                (''years_found'', dict_get (snd (snd (snd r))) ''years_found''),
                (''is_deduplicated'', VBool True),
                (''duplicate_count'', dict_get (snd (snd (snd r))) ''duplicate_count'')]
             = Inr (fst (snd r), fst (snd (snd r)))"
proof (cases "select_canonical_version qs is")
  case (Inl e)
  with assms show ?thesis by (simp add: enhance_def)
next
  case (Inr p)
  obtain c cq where p: "p = (c, cq)" by (cases p)
  show ?thesis
  proof (cases "merge_sources qs is")
    case (Inl e)
    with assms Inr p show ?thesis by (simp add: enhance_def)
  next
    case m: (Inr merged)
    show ?thesis
    proof (cases "write_metadata cq (setitem cq ''source_metadata'' (VDict merged))
                     [(''source_pdfs'', dict_get merged ''source_pdfs''),
                      (''years_found'', dict_get merged ''years_found''),
                      (''is_deduplicated'', VBool True),
                      (''duplicate_count'', dict_get merged ''duplicate_count'')]")
      case (Inl e)
      with assms Inr p m show ?thesis by (simp add: enhance_def)
    next
      case w: (Inr pr)
      obtain cq' eq where pr: "pr = (cq', eq)" by (cases pr)
      have "enhance qs is = Inr (c, cq', eq, merged)"
        unfolding enhance_def using Inr p m w pr by simp
      with assms have "r = (c, cq', eq, merged)" by simp
      with Inr p m w pr show ?thesis by simp
    qed
  qed
qed

lemma enhance_member:
  "enhance qs is = Inr r \<Longrightarrow> fst r \<in> set is \<and> fst r < length qs"
  using enhance_Inr[of qs "is" r] select_canonical_member[of qs "is" "fst r"] by blast

lemma discard_others_eq: "discard_others keep is c = keep - (set is - {c})"
  unfolding discard_others_def
proof (induction "is" arbitrary: keep)
  case Nil
  then show ?case by simp
next
  case (Cons i "is")
  let ?f = "\<lambda>k idx. if idx \<noteq> c then k - {idx} else k"
  show ?case
  proof (cases "i = c")
    case True
    have "foldl ?f keep (i # is) = foldl ?f keep is" using True by simp
    also have "\<dots> = keep - (set is - {c})" by (rule Cons)
    also have "\<dots> = keep - (set (i # is) - {c})" using True by auto
    finally show ?thesis .
  next
    case False
    have "foldl ?f keep (i # is) = foldl ?f (keep - {i}) is" using False by simp
    also have "\<dots> = keep - {i} - (set is - {c})" by (rule Cons)
    also have "\<dots> = keep - (set (i # is) - {c})" using False by auto
    finally show ?thesis .
  qed
qed

lemma process_group_enhance:
  "process_group (qs, dd, keep, grs) g =
     (case enhance qs (snd g) of
        Inl e \<Rightarrow> Inl e
      | Inr r \<Rightarrow> Inr (qs[fst r := fst (snd r)], dd @ [fst (snd (snd r))],
                      keep - (set (snd g) - {fst r}), grs @ [audit_of (snd g) r]))"
proof (cases "select_canonical_version qs (snd g)")
  case (Inl e)
  then show ?thesis by (simp add: process_group_def enhance_def)
next
  case (Inr p)
  obtain c cq where p: "p = (c, cq)" by (cases p)
  show ?thesis
  proof (cases "merge_sources qs (snd g)")
    case (Inl e)
    with Inr p show ?thesis by (simp add: process_group_def enhance_def)
  next
    case m: (Inr merged)
    show ?thesis
    proof (cases "write_metadata cq (setitem cq ''source_metadata'' (VDict merged))
                     [(''source_pdfs'', dict_get merged ''source_pdfs''),
                      (''years_found'', dict_get merged ''years_found''),
                      (''is_deduplicated'', VBool True),
                      (''duplicate_count'', dict_get merged ''duplicate_count'')]")
      case (Inl e)
      with Inr p m show ?thesis by (simp add: process_group_def enhance_def)
    next
      case w: (Inr pr)
      obtain cq' eq where pr: "pr = (cq', eq)" by (cases pr)
      have l: "process_group (qs, dd, keep, grs) g =
          Inr (qs[c := cq'], dd @ [eq], discard_others keep (snd g) c,
               grs @ [\<lparr>canonical_index = c, canonical_unit = dict_get cq' ''unit'',
                   canonical_year = dict_get cq' ''year'', duplicate_indices = snd g,
                   merged_sources = merged\<rparr>])"
        unfolding process_group_def Let_def using Inr p m w pr by simp
      have r: "enhance qs (snd g) = Inr (c, cq', eq, merged)"
        unfolding enhance_def using Inr p m w pr by simp
      show ?thesis unfolding l r
        by (simp only: audit_of_def discard_others_eq sum.case fst_conv snd_conv)
    qed
  qed
qed


lemma group_pass_char:
  assumes "group_pass (qs, dd, keep, grs) gs = Inr (qs', dd', keep', grs')"
    and "length qs = length qs0"
    and "\<forall>i\<in>set (concat (map snd gs)). i < length qs0 \<longrightarrow> qs ! i = qs0 ! i"
    and "distinct (concat (map snd gs))"
  shows "\<exists>rs. list_all2 (\<lambda>g r. enhance qs0 (snd g) = Inr r) gs rs
       \<and> dd' = dd @ map (\<lambda>r. fst (snd (snd r))) rs
       \<and> grs' = grs @ map (\<lambda>gr. audit_of (snd (fst gr)) (snd gr)) (zip gs rs)
       \<and> keep' = keep - (set (concat (map snd gs)) - set (map fst rs))
       \<and> length qs' = length qs
       \<and> (\<forall>i. i \<notin> set (map fst rs) \<longrightarrow> qs' ! i = qs ! i)"
  using assms
proof (induction gs arbitrary: qs dd keep grs)
  case Nil
  then show ?case by simp
next
  case (Cons g gs)
  have cong: "enhance qs (snd g) = enhance qs0 (snd g)"
    using Cons.prems(2,3) by (intro enhance_cong) auto
  from Cons.prems(1) obtain st1 where st1: "process_group (qs, dd, keep, grs) g = Inr st1"
    and rest: "group_pass st1 gs = Inr (qs', dd', keep', grs')"
    by (auto split: sum.splits)
  from st1 obtain r where r: "enhance qs0 (snd g) = Inr r"
    and st1_eq: "st1 = (qs[fst r := fst (snd r)], dd @ [fst (snd (snd r))],
                      keep - (set (snd g) - {fst r}), grs @ [audit_of (snd g) r])"
    unfolding process_group_enhance cong by (cases "enhance qs0 (snd g)") auto
  from enhance_member[OF r] have c_in: "fst r \<in> set (snd g)" and c_lt: "fst r < length qs0"
    by auto
  from Cons.prems(4) have dist_rest: "distinct (concat (map snd gs))"
    and disj: "set (snd g) \<inter> set (concat (map snd gs)) = {}" by auto
  have c_notin: "fst r \<notin> set (concat (map snd gs))" using c_in disj by auto
  let ?qs1 = "qs[fst r := fst (snd r)]"
  have len1: "length ?qs1 = length qs0" using Cons.prems(2) by simp
  have agree1: "\<forall>i\<in>set (concat (map snd gs)). i < length qs0 \<longrightarrow> ?qs1 ! i = qs0 ! i"
  proof (intro ballI impI)
    fix i assume i: "i \<in> set (concat (map snd gs))" and "i < length qs0"
    with Cons.prems(3) have "qs ! i = qs0 ! i" by simp
    moreover from i c_notin have "i \<noteq> fst r" by auto
    ultimately show "?qs1 ! i = qs0 ! i" by simp
  qed
  from rest st1_eq have rest': "group_pass (?qs1, dd @ [fst (snd (snd r))],
        keep - (set (snd g) - {fst r}), grs @ [audit_of (snd g) r]) gs = Inr (qs', dd', keep', grs')"
    by simp
  from Cons.IH[OF rest' len1 agree1 dist_rest] obtain rs where
    la: "list_all2 (\<lambda>g r. enhance qs0 (snd g) = Inr r) gs rs"
    and dd': "dd' = (dd @ [fst (snd (snd r))]) @ map (\<lambda>r. fst (snd (snd r))) rs"
    and grs': "grs' = (grs @ [audit_of (snd g) r]) @ map (\<lambda>gr. audit_of (snd (fst gr)) (snd gr)) (zip gs rs)"
    and keep': "keep' = keep - (set (snd g) - {fst r}) - (set (concat (map snd gs)) - set (map fst rs))"
    and len': "length qs' = length ?qs1"
    and frame: "\<forall>i. i \<notin> set (map fst rs) \<longrightarrow> qs' ! i = ?qs1 ! i"
    by blast
  have canon_rest: "set (map fst rs) \<subseteq> set (concat (map snd gs))"
  proof
    fix c assume "c \<in> set (map fst rs)"
    then obtain k where k: "k < length rs" and c: "c = fst (rs ! k)"
      by (auto simp: in_set_conv_nth)
    from la k have "enhance qs0 (snd (gs ! k)) = Inr (rs ! k)" and kg: "k < length gs"
      by (auto simp: list_all2_conv_all_nth)
    from enhance_member[OF this(1)] c have "c \<in> set (snd (gs ! k))" by simp
    with kg show "c \<in> set (concat (map snd gs))" by auto
  qed
  have keep_eq: "keep' = keep - (set (concat (map snd (g # gs))) - set (map fst (r # rs)))"
    unfolding keep' using canon_rest c_in c_notin disj by auto
  have frame': "\<forall>i. i \<notin> set (map fst (r # rs)) \<longrightarrow> qs' ! i = qs ! i"
    using frame by auto
  have "list_all2 (\<lambda>g r. enhance qs0 (snd g) = Inr r) (g # gs) (r # rs)"
    using la r by simp
  moreover have "dd' = dd @ map (\<lambda>r. fst (snd (snd r))) (r # rs)" using dd' by simp
  moreover have "grs' = grs @ map (\<lambda>gr. audit_of (snd (fst gr)) (snd gr)) (zip (g # gs) (r # rs))"
    using grs' by simp
  moreover have "length qs' = length qs" using len' by simp
  ultimately show ?case using keep_eq frame' by blast
qed

lemma single_pass_char:
  assumes "single_pass canon (qs, dd) is = Inr (qs', dd')"
    and "length qs = length qs0"
    and "\<forall>i\<in>set is. i \<notin> set canon \<longrightarrow> i < length qs0 \<longrightarrow> qs ! i = qs0 ! i"
    and "distinct is"
  shows "\<exists>ss. list_all2 (\<lambda>i s. i < length qs0 \<and> single_record (qs0 ! i) = Inr s)
                  (filter (\<lambda>i. i \<notin> set canon) is) ss
       \<and> dd' = dd @ map snd ss
       \<and> length qs' = length qs"
  using assms
proof (induction "is" arbitrary: qs dd)
  case Nil
  then show ?case by simp
next
  case (Cons i "is")
  show ?case
  proof (cases "i \<in> set canon")
    case True
    with Cons.prems(1) have rest: "single_pass canon (qs, dd) is = Inr (qs', dd')" by simp
    have agree: "\<forall>i\<in>set is. i \<notin> set canon \<longrightarrow> i < length qs0 \<longrightarrow> qs ! i = qs0 ! i"
      using Cons.prems(3) by simp
    have dist: "distinct is" using Cons.prems(4) by simp
    from Cons.IH[OF rest Cons.prems(2) agree dist] True show ?thesis by simp
  next
    case False
    from Cons.prems(1) False obtain original where
      at: "questions_at qs i = Inr original"
      by (cases "questions_at qs i") auto
    then have i_lt: "i < length qs" and orig: "original = qs ! i"
      by (auto simp: questions_at_def split: if_splits)
    from i_lt Cons.prems(2,3) False have orig0: "original = qs0 ! i" and i_lt0: "i < length qs0"
      using orig by auto
    from Cons.prems(1) False at obtain pr where
      w: "write_metadata original original [(''is_deduplicated'', VBool False)] = Inr pr"
      by (cases "write_metadata original original [(''is_deduplicated'', VBool False)]") auto
    obtain original' q where pr: "pr = (original', q)" by (cases pr)
    from Cons.prems(1) False at w pr have
      rest: "single_pass canon (qs[i := original'], dd @ [q]) is = Inr (qs', dd')" by simp
    have len1: "length (qs[i := original']) = length qs0" using Cons.prems(2) by simp
    have agree: "\<forall>j\<in>set is. j \<notin> set canon \<longrightarrow> j < length qs0 \<longrightarrow>
                   qs[i := original'] ! j = qs0 ! j"
    proof (intro ballI impI)
      fix j assume j: "j \<in> set is" and "j \<notin> set canon" and "j < length qs0"
      with Cons.prems(3) have "qs ! j = qs0 ! j" by simp
      moreover from j Cons.prems(4) have "j \<noteq> i" by auto
      ultimately show "qs[i := original'] ! j = qs0 ! j" by simp
    qed
    have dist: "distinct is" using Cons.prems(4) by simp
    from Cons.IH[OF rest len1 agree dist] obtain ss where
      la: "list_all2 (\<lambda>i s. i < length qs0 \<and> single_record (qs0 ! i) = Inr s)
                  (filter (\<lambda>i. i \<notin> set canon) is) ss"
      and dd': "dd' = (dd @ [q]) @ map snd ss"
      and len': "length qs' = length (qs[i := original'])" by blast
    have sr: "single_record (qs0 ! i) = Inr (original', q)"
      using w pr orig0 by (simp add: single_record_def)
    have "list_all2 (\<lambda>i s. i < length qs0 \<and> single_record (qs0 ! i) = Inr s)
                  (filter (\<lambda>i. i \<notin> set canon) (i # is)) ((original', q) # ss)"
      using la sr False i_lt0 by simp
    moreover have "dd' = dd @ map snd ((original', q) # ss)" using dd' by simp
    moreover have "length qs' = length qs" using len' by simp
    ultimately show ?thesis by blast
  qed
qed

lemma sorted_list_of_filter_upt:
  "sorted_list_of_set (set (filter P [0..<n])) = filter P [0..<n]"
proof -
  have "sorted (filter P [0..<n])" by (simp add: sorted_wrt_filter)
  moreover have "distinct (filter P [0..<n])" by simp
  ultimately have "sort (remdups (filter P [0..<n])) = filter P [0..<n]"
    by (simp add: sorted_sort_id)
  then show ?thesis
    by (simp only: sorted_list_of_set_sort_remdups)
qed

lemma set_dup_groups_in_range:
  "i \<in> set (concat (map snd (dup_groups ts))) \<Longrightarrow> i < length ts"
  unfolding dup_groups_def by (rule group_members_in_range)

lemma dup_groups_disjoint: "distinct (concat (map snd (dup_groups ts)))"
  unfolding dup_groups_def by (rule groups_disjoint)


lemma length_texts: "map question_text qs = map Inr ts \<Longrightarrow> length ts = length qs"
  by (metis length_map)

lemma deduplicate_char:
  assumes "deduplicate_questions qs = Inr (qs', out, rep)"
  shows "\<exists>ts rs ss.
      map question_text qs = map Inr ts \<and>
      find_duplicates qs = Inr (dup_groups ts) \<and>
      list_all2 (\<lambda>g r. enhance qs (snd g) = Inr r) (dup_groups ts) rs \<and>
      list_all2 (\<lambda>i s. i < length qs \<and> single_record (qs ! i) = Inr s) (singles ts) ss \<and>
      out = map (\<lambda>r. fst (snd (snd r))) rs @ map snd ss \<and>
      duplicate_groups rep = map (\<lambda>gr. audit_of (snd (fst gr)) (snd gr)) (zip (dup_groups ts) rs) \<and>
      total_original rep = int (length qs) \<and>
      total_duplicates_found rep = int (length (dup_groups ts)) \<and>
      total_duplicate_instances rep =
         sum_list (map (\<lambda>p. int (length (snd p)) - 1) (dup_groups ts)) \<and>
      total_after_deduplication rep = int (length out) \<and>
      questions_removed rep = int (length qs) - int (length out) \<and>
      length qs' = length qs"
proof -
  from assms obtain gs where fd: "find_duplicates qs = Inr gs"
    by (cases "find_duplicates qs") (auto simp: deduplicate_questions_def)
  from find_duplicates_Inr[OF fd] obtain ts where
    ts: "map question_text qs = map Inr ts" and gs: "gs = dup_groups ts"
    by (auto simp: dup_groups_def)
  have len_ts: "length ts = length qs" using ts by (rule length_texts)
  from assms fd obtain st1 where
    gp: "group_pass (qs, [], set [0..<length qs], []) gs = Inr st1"
    by (cases "group_pass (qs, [], set [0..<length qs], []) gs")
       (auto simp: deduplicate_questions_def)
  obtain qs1 dd1 keep grs where st1: "st1 = (qs1, dd1, keep, grs)" by (cases st1)
  from assms fd gp st1 obtain st2 where
    sp: "single_pass (map canonical_index grs) (qs1, dd1) (sorted_list_of_set keep) = Inr st2"
    by (cases "single_pass (map canonical_index grs) (qs1, dd1) (sorted_list_of_set keep)")
       (auto simp: deduplicate_questions_def)
  obtain qs2 dd2 where st2: "st2 = (qs2, dd2)" by (cases st2)
  from assms fd gp st1 sp st2 have
    res: "(qs', out, rep) = (qs2, dd2,
        \<lparr>total_original = int (length qs),
         total_duplicates_found = int (length gs),
         total_duplicate_instances = sum_list (map (\<lambda>p. int (length (snd p)) - 1) gs),
         duplicate_groups = grs,
         total_after_deduplication = int (length dd2),
         questions_removed = int (length qs) - int (length dd2)\<rparr>)"
    by (auto simp: deduplicate_questions_def Let_def)
  let ?M = "set (concat (map snd gs))"
  have agree0: "\<forall>i\<in>?M. i < length qs \<longrightarrow> qs ! i = qs ! i" by simp
  have dist: "distinct (concat (map snd gs))" unfolding gs by (rule dup_groups_disjoint)
  from group_pass_char[OF gp[unfolded st1] refl agree0 dist] obtain rs where
    la: "list_all2 (\<lambda>g r. enhance qs (snd g) = Inr r) gs rs"
    and dd1: "dd1 = [] @ map (\<lambda>r. fst (snd (snd r))) rs"
    and grs: "grs = [] @ map (\<lambda>gr. audit_of (snd (fst gr)) (snd gr)) (zip gs rs)"
    and keep: "keep = set [0..<length qs] - (?M - set (map fst rs))"
    and len1: "length qs1 = length qs"
    and frame: "\<forall>i. i \<notin> set (map fst rs) \<longrightarrow> qs1 ! i = qs ! i"
    by blast
  have len_rs: "length rs = length gs" using la by (simp add: list_all2_lengthD)
  have canon: "map canonical_index grs = map fst rs"
  proof (rule nth_equalityI)
    show "length (map canonical_index grs) = length (map fst rs)"
      using grs len_rs by simp
  next
    fix k assume "k < length (map canonical_index grs)"
    then have "k < length gs" "k < length rs" using grs len_rs by auto
    then show "map canonical_index grs ! k = map fst rs ! k"
      using grs by (simp add: audit_of_def)
  qed
  have C_sub: "set (map fst rs) \<subseteq> ?M"
  proof
    fix c assume "c \<in> set (map fst rs)"
    then obtain k where k: "k < length rs" and c: "c = fst (rs ! k)"
      by (auto simp: in_set_conv_nth)
    from la k have "enhance qs (snd (gs ! k)) = Inr (rs ! k)" and kg: "k < length gs"
      by (auto simp: list_all2_conv_all_nth)
    from enhance_member[OF this(1)] c have "c \<in> set (snd (gs ! k))" by simp
    with kg show "c \<in> ?M" by auto
  qed
  have keep_set: "keep = set (filter (\<lambda>i. i \<notin> ?M - set (map fst rs)) [0..<length qs])"
    unfolding keep by auto
  have sorted_keep: "sorted_list_of_set keep = filter (\<lambda>i. i \<notin> ?M - set (map fst rs)) [0..<length qs]"
    unfolding keep_set by (rule sorted_list_of_filter_upt)
  let ?L = "filter (\<lambda>i. i \<notin> ?M - set (map fst rs)) [0..<length qs]"
  have agree1: "\<forall>i\<in>set ?L. i \<notin> set (map fst rs) \<longrightarrow> i < length qs \<longrightarrow> qs1 ! i = qs ! i"
    using frame by simp
  have distL: "distinct ?L" by simp
  from single_pass_char[OF sp[unfolded st2 sorted_keep canon] len1 agree1 distL] obtain ss where
    la2: "list_all2 (\<lambda>i s. i < length qs \<and> single_record (qs ! i) = Inr s)
            (filter (\<lambda>i. i \<notin> set (map fst rs)) ?L) ss"
    and dd2: "dd2 = dd1 @ map snd ss"
    and len2: "length qs2 = length qs1" by blast
  have "filter (\<lambda>i. i \<notin> set (map fst rs)) ?L = filter (\<lambda>i. i \<notin> ?M) [0..<length qs]"
    unfolding filter_filter using C_sub by (intro filter_cong) auto
  then have L_eq: "filter (\<lambda>i. i \<notin> set (map fst rs)) ?L = singles ts"
    by (simp add: singles_def gs len_ts)
  from res have q': "qs' = qs2" and o: "out = dd2" and
    rep: "rep = \<lparr>total_original = int (length qs),
         total_duplicates_found = int (length gs),
         total_duplicate_instances = sum_list (map (\<lambda>p. int (length (snd p)) - 1) gs),
         duplicate_groups = grs,
         total_after_deduplication = int (length dd2),
         questions_removed = int (length qs) - int (length dd2)\<rparr>" by auto
  have "list_all2 (\<lambda>g r. enhance qs (snd g) = Inr r) (dup_groups ts) rs" using la gs by simp
  moreover have "list_all2 (\<lambda>i s. i < length qs \<and> single_record (qs ! i) = Inr s) (singles ts) ss"
    using la2 L_eq by simp
  moreover have "out = map (\<lambda>r. fst (snd (snd r))) rs @ map snd ss" using o dd2 dd1 by simp
  moreover have "duplicate_groups rep =
      map (\<lambda>gr. audit_of (snd (fst gr)) (snd gr)) (zip (dup_groups ts) rs)"
    using rep grs gs by simp
  moreover have "total_original rep = int (length qs)" using rep by simp
  moreover have "total_duplicates_found rep = int (length (dup_groups ts))" using rep gs by simp
  moreover have "total_duplicate_instances rep =
         sum_list (map (\<lambda>p. int (length (snd p)) - 1) (dup_groups ts))" using rep gs by simp
  moreover have "total_after_deduplication rep = int (length out)" using rep o by simp
  moreover have "questions_removed rep = int (length qs) - int (length out)" using rep o by simp
  moreover have "length qs' = length qs" using q' len2 len1 by simp
  moreover have "find_duplicates qs = Inr (dup_groups ts)" using fd gs by simp
  ultimately show ?thesis using ts by blast
qed

section \<open>Counting\<close>

lemma length_filter_not_mem:
  assumes "distinct xs" and "set xs \<subseteq> {0..<n}"
  shows "length (filter (\<lambda>i. i \<notin> set xs) [0..<n]) + length xs = n"
proof -
  have "distinct (filter (\<lambda>i. i \<in> set xs) [0..<n])" by simp
  moreover have "set (filter (\<lambda>i. i \<in> set xs) [0..<n]) = set xs" using assms(2) by auto
  ultimately have "length (filter (\<lambda>i. i \<in> set xs) [0..<n]) = length xs"
    using assms(1) by (metis distinct_card)
  moreover have "length (filter (\<lambda>i. i \<in> set xs) [0..<n])
      + length (filter (\<lambda>i. \<not> i \<in> set xs) [0..<n]) = length [0..<n]"
    by (rule sum_length_filter_compl)
  ultimately show ?thesis by simp
qed

lemma sum_instances:
  "sum_list (map (\<lambda>p. int (length (snd p)) - 1) gs)
     = int (length (concat (map snd gs))) - int (length gs)"
  by (induction gs) simp_all

lemma length_singles:
  "length (singles ts) + length (concat (map snd (dup_groups ts))) = length ts"
  unfolding singles_def
proof (rule length_filter_not_mem)
  show "distinct (concat (map snd (dup_groups ts)))" by (rule dup_groups_disjoint)
  show "set (concat (map snd (dup_groups ts))) \<subseteq> {0..<length ts}"
    using set_dup_groups_in_range by fastforce
qed

lemma report_counts_when_returned:
  assumes "deduplicate_questions questions = Inr (questions', deduplicated, rep)"
  shows "\<exists>groups. find_duplicates questions = Inr groups \<and>
     total_original rep = int (length questions) \<and>
     total_duplicate_instances rep = sum_list (map (\<lambda>g. int (length (snd g)) - 1) groups) \<and>
     total_after_deduplication rep = int (length deduplicated) \<and>
     total_after_deduplication rep = int (length questions) - total_duplicate_instances rep \<and>
     total_after_deduplication rep + questions_removed rep = int (length questions)"
proof -
  from deduplicate_char[OF assms] obtain ts rs ss where
    ts: "map question_text questions = map Inr ts"
    and fd: "find_duplicates questions = Inr (dup_groups ts)"
    and la: "list_all2 (\<lambda>g r. enhance questions (snd g) = Inr r) (dup_groups ts) rs"
    and la2: "list_all2 (\<lambda>i s. i < length questions \<and> single_record (questions ! i) = Inr s)
                (singles ts) ss"
    and out: "deduplicated = map (\<lambda>r. fst (snd (snd r))) rs @ map snd ss"
    and orig: "total_original rep = int (length questions)"
    and inst: "total_duplicate_instances rep =
         sum_list (map (\<lambda>p. int (length (snd p)) - 1) (dup_groups ts))"
    and after: "total_after_deduplication rep = int (length deduplicated)"
    and removed: "questions_removed rep = int (length questions) - int (length deduplicated)"
    by blast
  have len_ts: "length ts = length questions" using ts by (rule length_texts)
  have "length deduplicated = length (dup_groups ts) + length (singles ts)"
    using out la la2 by (simp add: list_all2_lengthD[symmetric])
  moreover have "int (length (singles ts)) + int (length (concat (map snd (dup_groups ts))))
      = int (length questions)"
    using length_singles[of ts] len_ts by linarith
  ultimately have "int (length deduplicated) = int (length questions) - total_duplicate_instances rep"
    unfolding inst sum_instances by linarith
  with fd orig inst after removed show ?thesis by auto
qed


section \<open>Dictionaries\<close>

lemma map_of_setitem: "map_of (setitem d k v) = (map_of d)(k \<mapsto> v)"
  by (induction d) (auto simp: fun_eq_iff)

lemma dict_get_setitem: "dict_get (setitem d k v) k' = (if k' = k then v else dict_get d k')"
  by (simp add: dict_get_def map_of_setitem)

lemma dict_get_default_setitem:
  "dict_get_default (setitem d k v) k' x = (if k' = k then v else dict_get_default d k' x)"
  by (simp add: dict_get_default_def map_of_setitem)

lemma dict_has_setitem: "dict_has (setitem d k v) k' = (k' = k \<or> dict_has d k')"
  by (simp add: dict_has_def map_of_setitem)

lemma question_text_setitem:
  "k \<noteq> ''question'' \<Longrightarrow> question_text (setitem d k v) = question_text d"
  by (simp add: question_text_def dict_get_default_setitem)

lemma write_metadata_Inr:
  assumes "write_metadata original q kvs = Inr (original', q')"
  shows "\<exists>md. q' = setitem q ''metadata''
                  (VDict (foldl (\<lambda>d kv. setitem d (fst kv) (snd kv)) md kvs)) \<and>
              (if dict_has q ''metadata''
               then dict_get q ''metadata'' = VDict md \<and>
                    original' = setitem original ''metadata''
                      (VDict (foldl (\<lambda>d kv. setitem d (fst kv) (snd kv)) md kvs))
               else md = [] \<and> original' = original)"
proof (cases "dict_has q ''metadata''")
  case False
  with assms show ?thesis by (auto simp: write_metadata_def)
next
  case True
  with assms obtain md where md: "dict_get q ''metadata'' = VDict md"
    by (cases "dict_get q ''metadata''") (auto simp: write_metadata_def)
  with assms True show ?thesis by (auto simp: write_metadata_def Let_def)
qed

lemma write_metadata_question_text:
  "write_metadata original q kvs = Inr (original', q') \<Longrightarrow> question_text q' = question_text q"
  by (drule write_metadata_Inr) (auto simp: question_text_setitem)

lemma write_metadata_other_keys:
  assumes "write_metadata original q kvs = Inr (original', q')" and "k \<noteq> ''metadata''"
  shows "map_of q' k = map_of q k" and "map_of original' k = map_of original k"
proof -
  from write_metadata_Inr[OF assms(1)] obtain md where
    q': "q' = setitem q ''metadata'' (VDict (foldl (\<lambda>d kv. setitem d (fst kv) (snd kv)) md kvs))"
    and o: "original' = original \<or> original' = setitem original ''metadata''
                      (VDict (foldl (\<lambda>d kv. setitem d (fst kv) (snd kv)) md kvs))"
    by (auto split: if_splits)
  show "map_of q' k = map_of q k" using q' assms(2) by (simp add: map_of_setitem)
  show "map_of original' k = map_of original k" using o assms(2) by (auto simp: map_of_setitem)
qed

lemma write_metadata_last:
  assumes "write_metadata original q (kvs @ [(k, v)]) = Inr (original', q')"
  shows "\<exists>md. dict_get q' ''metadata'' = VDict md \<and> dict_get md k = v"
  using write_metadata_Inr[OF assms] by (auto simp: dict_get_setitem)

section \<open>Texts of the groups and of the output\<close>

lemma dup_groups_member:
  "g \<in> set (dup_groups ts) \<longleftrightarrow>
     fst g \<in> set ts \<and> snd g = positions (fst g) ts \<and> 1 < length (positions (fst g) ts)"
  by (cases g) (auto simp: dup_groups_def group_spec_def set_first_order)

lemma members_iff:
  "i \<in> set (concat (map snd (dup_groups ts))) \<longleftrightarrow>
     i < length ts \<and> 1 < length (positions (ts ! i) ts)"
proof
  assume "i \<in> set (concat (map snd (dup_groups ts)))"
  then obtain g where g: "g \<in> set (dup_groups ts)" and i: "i \<in> set (snd g)" by auto
  from g have sg: "snd g = positions (fst g) ts" and l: "1 < length (positions (fst g) ts)"
    by (simp_all add: dup_groups_member)
  from i sg have "i < length ts" "ts ! i = fst g" by (simp_all add: set_positions)
  with l show "i < length ts \<and> 1 < length (positions (ts ! i) ts)" by simp
next
  assume a: "i < length ts \<and> 1 < length (positions (ts ! i) ts)"
  then have "(ts ! i, positions (ts ! i) ts) \<in> set (dup_groups ts)"
    by (simp add: dup_groups_member)
  moreover have "i \<in> set (positions (ts ! i) ts)" using a by (simp add: set_positions)
  ultimately show "i \<in> set (concat (map snd (dup_groups ts)))" by force
qed

lemma distinct_group_texts: "distinct (map fst (dup_groups ts))"
proof -
  have "map fst (group_spec ts) = first_order ts" by (simp add: group_spec_def comp_def)
  then have "distinct (map fst (group_spec ts))" by (simp add: distinct_first_order)
  then show ?thesis unfolding dup_groups_def by (rule distinct_map_filter)
qed

lemma two_positions:
  assumes "i < length ts" and "j < length ts" and "i \<noteq> j" and "ts ! i = ts ! j"
  shows "1 < length (positions (ts ! i) ts)"
proof -
  have "{i, j} \<subseteq> set (positions (ts ! i) ts)" using assms by (auto simp: set_positions)
  then have "card {i, j} \<le> card (set (positions (ts ! i) ts))"
    by (intro card_mono) auto
  also have "\<dots> = length (positions (ts ! i) ts)"
    by (simp add: distinct_card distinct_positions)
  finally show ?thesis using assms(3) by simp
qed

lemma distinct_single_texts: "distinct (map (\<lambda>i. ts ! i) (singles ts))"
proof -
  have "inj_on (\<lambda>i. ts ! i) (set (singles ts))"
  proof (rule inj_onI)
    fix i j assume i: "i \<in> set (singles ts)" and j: "j \<in> set (singles ts)"
      and eq: "ts ! i = ts ! j"
    from i j have il: "i < length ts" and jl: "j < length ts"
      and ni: "i \<notin> set (concat (map snd (dup_groups ts)))"
      by (auto simp: singles_def)
    show "i = j"
    proof (rule ccontr)
      assume "i \<noteq> j"
      from two_positions[OF il jl this eq] il have "i \<in> set (concat (map snd (dup_groups ts)))"
        using members_iff[of i ts] by blast
      with ni show False by simp
    qed
  qed
  moreover have "distinct (singles ts)" by (simp add: singles_def)
  ultimately show ?thesis by (simp add: distinct_map)
qed

lemma group_single_texts_disjoint:
  "set (map fst (dup_groups ts)) \<inter> set (map (\<lambda>i. ts ! i) (singles ts)) = {}"
proof (rule ccontr)
  assume "set (map fst (dup_groups ts)) \<inter> set (map (\<lambda>i. ts ! i) (singles ts)) \<noteq> {}"
  then obtain g i where g: "g \<in> set (dup_groups ts)" and i: "i \<in> set (singles ts)"
    and eq: "fst g = ts ! i" by auto
  from g eq have "1 < length (positions (ts ! i) ts)" by (simp add: dup_groups_member)
  moreover from i have "i < length ts" "i \<notin> set (concat (map snd (dup_groups ts)))"
    by (auto simp: singles_def)
  ultimately show False using members_iff[of i ts] by blast
qed

lemma distinct_output_texts:
  "distinct (map fst (dup_groups ts) @ map (\<lambda>i. ts ! i) (singles ts))"
  using distinct_group_texts[of ts] distinct_single_texts[of ts]
    group_single_texts_disjoint[of ts]
  by (simp only: distinct_append)

lemma set_output_texts:
  "set (map fst (dup_groups ts) @ map (\<lambda>i. ts ! i) (singles ts)) = set ts"
proof
  show "set (map fst (dup_groups ts) @ map (\<lambda>i. ts ! i) (singles ts)) \<subseteq> set ts"
    by (auto simp: dup_groups_member singles_def)
next
  show "set ts \<subseteq> set (map fst (dup_groups ts) @ map (\<lambda>i. ts ! i) (singles ts))"
  proof
    fix t assume "t \<in> set ts"
    then obtain i where i: "i < length ts" "ts ! i = t" by (auto simp: in_set_conv_nth)
    show "t \<in> set (map fst (dup_groups ts) @ map (\<lambda>i. ts ! i) (singles ts))"
    proof (cases "1 < length (positions t ts)")
      case True
      with \<open>t \<in> set ts\<close> have "(t, positions t ts) \<in> set (dup_groups ts)"
        by (simp add: dup_groups_member)
      then show ?thesis by force
    next
      case False
      with i have "i \<notin> set (concat (map snd (dup_groups ts)))"
        using members_iff[of i ts] by blast
      with i have "i \<in> set (singles ts)" by (simp add: singles_def)
      with i show ?thesis by force
    qed
  qed
qed

lemma text_at:
  "map question_text qs = map Inr ts \<Longrightarrow> i < length qs \<Longrightarrow> question_text (qs ! i) = Inr (ts ! i)"
  by (metis length_map nth_map)

lemma enhance_output:
  assumes "enhance qs is = Inr r"
  shows "fst r \<in> set is" and "fst r < length qs"
    and "question_text (fst (snd (snd r))) = question_text (qs ! fst r)"
    and "\<forall>k. k \<noteq> ''metadata'' \<and> k \<noteq> ''source_metadata'' \<longrightarrow>
           map_of (fst (snd (snd r))) k = map_of (qs ! fst r) k"
    and "\<exists>md. dict_get (fst (snd (snd r))) ''metadata'' = VDict md \<and>
              dict_get md ''is_deduplicated'' = VBool True"
proof -
  from enhance_Inr[OF assms] obtain cq where
    sel: "select_canonical_version qs is = Inr (fst r, cq)"
    and w: "write_metadata cq (setitem cq ''source_metadata'' (VDict (snd (snd (snd r)))))
               [(''source_pdfs'', dict_get (snd (snd (snd r))) ''source_pdfs''),
                (''years_found'', dict_get (snd (snd (snd r))) ''years_found''),
                (''is_deduplicated'', VBool True),
                (''duplicate_count'', dict_get (snd (snd (snd r))) ''duplicate_count'')]
             = Inr (fst (snd r), fst (snd (snd r)))"
    by blast
  from select_canonical_member[OF sel] show "fst r \<in> set is" and "fst r < length qs"
    by simp_all
  from select_canonical_member[OF sel] have cq: "cq = qs ! fst r" by simp
  from write_metadata_question_text[OF w]
  show "question_text (fst (snd (snd r))) = question_text (qs ! fst r)"
    by (simp add: question_text_setitem cq)
  show "\<forall>k. k \<noteq> ''metadata'' \<and> k \<noteq> ''source_metadata'' \<longrightarrow>
           map_of (fst (snd (snd r))) k = map_of (qs ! fst r) k"
    using write_metadata_other_keys(1)[OF w] by (simp add: map_of_setitem cq)
  from write_metadata_Inr[OF w]
  show "\<exists>md. dict_get (fst (snd (snd r))) ''metadata'' = VDict md \<and>
              dict_get md ''is_deduplicated'' = VBool True"
    by (auto simp: dict_get_setitem)
qed

lemma single_output:
  assumes "single_record q = Inr s"
  shows "question_text (snd s) = question_text q"
    and "\<forall>k. k \<noteq> ''metadata'' \<longrightarrow> map_of (snd s) k = map_of q k"
    and "\<exists>md. dict_get (snd s) ''metadata'' = VDict md \<and>
              dict_get md ''is_deduplicated'' = VBool False"
proof -
  from assms have w: "write_metadata q q [(''is_deduplicated'', VBool False)] = Inr (fst s, snd s)"
    by (simp add: single_record_def)
  from write_metadata_question_text[OF w] show "question_text (snd s) = question_text q" .
  show "\<forall>k. k \<noteq> ''metadata'' \<longrightarrow> map_of (snd s) k = map_of q k"
    using write_metadata_other_keys(1)[OF w] by simp
  from write_metadata_Inr[OF w]
  show "\<exists>md. dict_get (snd s) ''metadata'' = VDict md \<and>
              dict_get md ''is_deduplicated'' = VBool False"
    by (auto simp: dict_get_setitem)
qed

lemma group_canonical_text:
  assumes "map question_text qs = map Inr ts" and "g \<in> set (dup_groups ts)"
    and "enhance qs (snd g) = Inr r"
  shows "question_text (fst (snd (snd r))) = Inr (fst g)"
proof -
  from enhance_output(1,2,3)[OF assms(3)] have c: "fst r \<in> set (snd g)"
    and lt: "fst r < length qs"
    and t: "question_text (fst (snd (snd r))) = question_text (qs ! fst r)" by simp_all
  from assms(2) have "snd g = positions (fst g) ts" by (simp add: dup_groups_member)
  with c have "ts ! fst r = fst g" by (simp add: set_positions)
  with t text_at[OF assms(1) lt] show ?thesis by simp
qed

lemma output_texts:
  assumes "deduplicate_questions qs = Inr (qs', out, rep)"
  shows "\<exists>ts. map question_text qs = map Inr ts \<and>
           map question_text out
             = map Inr (map fst (dup_groups ts) @ map (\<lambda>i. ts ! i) (singles ts))"
proof -
  from deduplicate_char[OF assms] obtain ts rs ss where
    ts: "map question_text qs = map Inr ts"
    and la: "list_all2 (\<lambda>g r. enhance qs (snd g) = Inr r) (dup_groups ts) rs"
    and la2: "list_all2 (\<lambda>i s. i < length qs \<and> single_record (qs ! i) = Inr s) (singles ts) ss"
    and out: "out = map (\<lambda>r. fst (snd (snd r))) rs @ map snd ss"
    by blast
  have a: "map question_text (map (\<lambda>r. fst (snd (snd r))) rs) = map Inr (map fst (dup_groups ts))"
  proof (rule nth_equalityI)
    show "length (map question_text (map (\<lambda>r. fst (snd (snd r))) rs))
        = length (map Inr (map fst (dup_groups ts)))"
      using la by (simp add: list_all2_lengthD)
  next
    fix k assume "k < length (map question_text (map (\<lambda>r. fst (snd (snd r))) rs))"
    then have k: "k < length rs" by simp
    with la have kg: "k < length (dup_groups ts)"
      and e: "enhance qs (snd (dup_groups ts ! k)) = Inr (rs ! k)"
      by (auto simp: list_all2_conv_all_nth)
    from kg have "dup_groups ts ! k \<in> set (dup_groups ts)" by simp
    from group_canonical_text[OF ts this e] k kg
    show "map question_text (map (\<lambda>r. fst (snd (snd r))) rs) ! k
        = map Inr (map fst (dup_groups ts)) ! k" by simp
  qed
  have b: "map question_text (map snd ss) = map Inr (map (\<lambda>i. ts ! i) (singles ts))"
  proof (rule nth_equalityI)
    show "length (map question_text (map snd ss)) = length (map Inr (map (\<lambda>i. ts ! i) (singles ts)))"
      using la2 by (simp add: list_all2_lengthD)
  next
    fix k assume "k < length (map question_text (map snd ss))"
    then have k: "k < length ss" by simp
    with la2 have ks: "k < length (singles ts)"
      and lt: "singles ts ! k < length qs"
      and e: "single_record (qs ! (singles ts ! k)) = Inr (ss ! k)"
      by (auto simp: list_all2_conv_all_nth)
    from single_output(1)[OF e] text_at[OF ts lt] k ks
    show "map question_text (map snd ss) ! k = map Inr (map (\<lambda>i. ts ! i) (singles ts)) ! k"
      by simp
  qed
  from a b out have "map question_text out
             = map Inr (map fst (dup_groups ts) @ map (\<lambda>i. ts ! i) (singles ts))" by simp
  with ts show ?thesis by blast
qed

section \<open>Blank questions\<close>

lemma py_strip_blank: "\<forall>c\<in>set s. is_space c \<Longrightarrow> py_strip s = []"
  by (auto simp: py_strip_def dropWhile_eq_Nil_conv dest: set_dropWhileD)

lemma question_text_absent: "\<not> dict_has q ''question'' \<Longrightarrow> question_text q = Inr []"
  by (simp add: question_text_def dict_has_def dict_get_default_def py_strip_def)

lemma question_text_blank:
  "dict_get_default q ''question'' (VStr []) = VStr s \<Longrightarrow> \<forall>c\<in>set s. is_space c \<Longrightarrow>
   question_text q = Inr []"
  by (simp add: question_text_def py_strip_blank)

lemma length_filter_eq_distinct:
  "distinct us \<Longrightarrow> u \<in> set us \<Longrightarrow> length (filter (\<lambda>x. x = u) us) = 1"
proof (induction us)
  case Nil
  then show ?case by simp
next
  case (Cons a us)
  show ?case
  proof (cases "a = u")
    case True
    with Cons.prems have "u \<notin> set us" by simp
    then have "filter (\<lambda>x. x = u) us = []" by (auto simp: filter_empty_conv)
    with True show ?thesis by simp
  next
    case False
    with Cons show ?thesis by simp
  qed
qed

lemma blank_positions:
  assumes "map question_text qs = map Inr ts"
  shows "filter (\<lambda>i. question_text (qs ! i) = Inr t) [0..<length qs] = positions t ts"
proof -
  have len: "length ts = length qs" using assms by (rule length_texts)
  have "filter (\<lambda>i. question_text (qs ! i) = Inr t) [0..<length qs]
      = filter (\<lambda>i. ts ! i = t) [0..<length qs]"
    by (rule filter_cong) (auto simp: text_at[OF assms])
  then show ?thesis by (simp add: positions_def len)
qed

lemma blank_group:
  assumes "find_duplicates qs = Inr gs"
    and "2 \<le> length (filter (\<lambda>i. question_text (qs ! i) = Inr t) [0..<length qs])"
  shows "(t, filter (\<lambda>i. question_text (qs ! i) = Inr t) [0..<length qs]) \<in> set gs"
proof -
  from find_duplicates_Inr[OF assms(1)] obtain ts where
    ts: "map question_text qs = map Inr ts" and gs: "gs = dup_groups ts"
    by (auto simp: dup_groups_def)
  from assms(2) have l: "1 < length (positions t ts)" by (simp add: blank_positions[OF ts])
  then have "positions t ts \<noteq> []" by auto
  then have "t \<in> set ts" by (simp add: positions_empty_iff)
  with l have "(t, positions t ts) \<in> set (dup_groups ts)" by (simp add: dup_groups_member)
  then show ?thesis by (simp add: blank_positions[OF ts] gs)
qed

lemma one_output_per_text:
  assumes "deduplicate_questions qs = Inr (qs', out, rep)"
    and "i < length qs" and "question_text (qs ! i) = Inr t"
  shows "length (filter (\<lambda>q. question_text q = Inr t) out) = 1"
proof -
  from output_texts[OF assms(1)] obtain ts where
    ts: "map question_text qs = map Inr ts"
    and out: "map question_text out
             = map Inr (map fst (dup_groups ts) @ map (\<lambda>i. ts ! i) (singles ts))" by blast
  let ?us = "map fst (dup_groups ts) @ map (\<lambda>i. ts ! i) (singles ts)"
  have len: "length ts = length qs" using ts by (rule length_texts)
  from text_at[OF ts assms(2)] assms(3) have "ts ! i = t" by simp
  with assms(2) len have "t \<in> set ts" by auto
  then have mem: "t \<in> set ?us" by (simp only: set_output_texts)
  have "length (filter (\<lambda>q. question_text q = Inr t) out)
      = length (filter (\<lambda>x. x = Inr t) (map question_text out))"
    by (simp add: filter_map comp_def)
  also have "\<dots> = length (filter (\<lambda>x. x = Inr t) (map Inr ?us :: (error + string) list))"
    by (simp only: out)
  also have "\<dots> = length (filter (\<lambda>u. u = t) ?us)" by (simp add: filter_map comp_def)
  also have "\<dots> = 1" using distinct_output_texts mem by (rule length_filter_eq_distinct)
  finally show ?thesis .
qed

text \<open>
  Claim C10. A record whose \<^verbatim>\<open>question\<close> is absent, empty or made of whitespace only
  has the empty string as its key. When two or more records of the input have the
  empty key, \<^verbatim>\<open>find_duplicates\<close> returns them, in ascending order, as the group of the
  empty string, and the output of \<^verbatim>\<open>deduplicate_questions\<close> holds exactly one record
  with the empty key, whatever the other fields of those records are.
\<close>

theorem blank_questions_collapse:
  "(\<not> dict_has q ''question'' \<longrightarrow> question_text q = Inr []) \<and>
   (dict_get q ''question'' = VStr s \<and> (\<forall>c\<in>set s. is_space c) \<longrightarrow> question_text q = Inr []) \<and>
   (deduplicate_questions questions = Inr (questions', deduplicated, rep) \<and>
    2 \<le> length (filter (\<lambda>i. question_text (questions ! i) = Inr []) [0..<length questions]) \<longrightarrow>
      (\<exists>groups. find_duplicates questions = Inr groups \<and>
         ([], filter (\<lambda>i. question_text (questions ! i) = Inr []) [0..<length questions])
           \<in> set groups) \<and>
      length (filter (\<lambda>q. question_text q = Inr []) deduplicated) = 1)"
proof (intro conjI impI)
  show "\<not> dict_has q ''question'' \<Longrightarrow> question_text q = Inr []"
    by (rule question_text_absent)
next
  assume a: "dict_get q ''question'' = VStr s \<and> (\<forall>c\<in>set s. is_space c)"
  then have "dict_get_default q ''question'' (VStr []) = VStr s \<or> s = []"
    by (auto simp: dict_get_def dict_get_default_def split: option.splits)
  then show "question_text q = Inr []"
  proof
    assume "dict_get_default q ''question'' (VStr []) = VStr s"
    with a show ?thesis by (simp add: question_text_blank)
  next
    assume "s = []"
    with a have "dict_get_default q ''question'' (VStr []) = VStr []"
      by (auto simp: dict_get_def dict_get_default_def split: option.splits)
    then show ?thesis by (simp add: question_text_def py_strip_def)
  qed
next
  assume a: "deduplicate_questions questions = Inr (questions', deduplicated, rep) \<and>
    2 \<le> length (filter (\<lambda>i. question_text (questions ! i) = Inr []) [0..<length questions])"
  then have d: "deduplicate_questions questions = Inr (questions', deduplicated, rep)"
    and two: "2 \<le> length (filter (\<lambda>i. question_text (questions ! i) = Inr [])
                [0..<length questions])" by simp_all
  from deduplicate_char[OF d] obtain ts where fd: "find_duplicates questions = Inr (dup_groups ts)"
    by blast
  from blank_group[OF fd two] fd
  show "\<exists>groups. find_duplicates questions = Inr groups \<and>
         ([], filter (\<lambda>i. question_text (questions ! i) = Inr []) [0..<length questions])
           \<in> set groups" by blast
  from two have "filter (\<lambda>i. question_text (questions ! i) = Inr []) [0..<length questions] \<noteq> []"
    by auto
  then obtain i where "i < length questions" "question_text (questions ! i) = Inr []"
    by (auto simp: filter_empty_conv)
  from one_output_per_text[OF d this]
  show "length (filter (\<lambda>q. question_text q = Inr []) deduplicated) = 1" .
qed

theorem blank_questions_collapse_witness:
  "question_text [(''unit'', VStr ''BBIT106''), (''year'', VStr ''2019'')] = Inr [] \<and>
   question_text [(''question'', VStr '' ''), (''unit'', VStr ''HR201'')] = Inr [] \<and>
   (\<exists>groups. find_duplicates blank_corpus = Inr groups \<and> ([], [0, 2, 3]) \<in> set groups) \<and>
   (\<exists>questions' deduplicated rep.
      deduplicate_questions blank_corpus = Inr (questions', deduplicated, rep) \<and>
      length (filter (\<lambda>q. question_text q = Inr []) deduplicated) = 1)"
proof -
  let ?a = "[(''unit'', VStr ''BBIT106''), (''year'', VStr ''2019'')] :: pydict"
  let ?b = "[(''question'', VStr '' ''), (''unit'', VStr ''HR201'')] :: pydict"
  have "\<not> isl (deduplicate_questions blank_corpus)" by code_simp
  then obtain q d rep where ev: "deduplicate_questions blank_corpus = Inr (q, d, rep)"
    by (cases "deduplicate_questions blank_corpus") auto
  have blanks: "filter (\<lambda>i. question_text (blank_corpus ! i) = Inr [])
                  [0..<length blank_corpus] = [0, 2, 3]" by code_simp
  have h1: "\<not> dict_has ?a ''question''" by (simp add: dict_has_def)
  have h2: "dict_get ?b ''question'' = VStr '' '' \<and> (\<forall>c\<in>set '' ''. is_space c)"
    by (simp add: dict_get_def is_space_def)
  have h3: "deduplicate_questions blank_corpus = Inr (q, d, rep) \<and>
    2 \<le> length (filter (\<lambda>i. question_text (blank_corpus ! i) = Inr [])
           [0..<length blank_corpus])"
    using ev by (simp only: blanks) simp
  note t1 = blank_questions_collapse[of ?a "'' ''" blank_corpus q d rep]
  note t2 = blank_questions_collapse[of ?b "'' ''" blank_corpus q d rep]
  from t1 h1 have c1: "question_text ?a = Inr []" by blast
  from t2 h2 have c2: "question_text ?b = Inr []" by blast
  from t1 h3 have c3: "(\<exists>groups. find_duplicates blank_corpus = Inr groups \<and>
         ([], filter (\<lambda>i. question_text (blank_corpus ! i) = Inr [])
                [0..<length blank_corpus]) \<in> set groups) \<and>
      length (filter (\<lambda>q. question_text q = Inr []) d) = 1" by blast
  from c1 c2 c3 ev show ?thesis by (simp only: blanks) blast
qed

section \<open>Order of the groups\<close>

lemma hd_positions_snoc:
  "a \<in> set ts \<Longrightarrow> hd (positions a (ts @ [t])) = hd (positions a ts)"
  by (simp add: positions_snoc positions_empty_iff)

lemma hd_positions_less: "a \<in> set ts \<Longrightarrow> hd (positions a ts) < length ts"
proof -
  assume "a \<in> set ts"
  then have "positions a ts \<noteq> []" by (simp add: positions_empty_iff)
  then have "hd (positions a ts) \<in> set (positions a ts)" by simp
  then show ?thesis by (simp add: set_positions)
qed

lemma first_order_sorted:
  "sorted_wrt (\<lambda>a b. hd (positions a ts) < hd (positions b ts)) (first_order ts)"
proof (induction ts rule: rev_induct)
  case Nil
  then show ?case by (simp add: first_order_def)
next
  case (snoc t ts)
  have old: "sorted_wrt (\<lambda>a b. hd (positions a (ts @ [t])) < hd (positions b (ts @ [t])))
               (first_order ts)"
    using snoc
    by (rule sorted_wrt_mono_rel[rotated]) (simp add: set_first_order hd_positions_snoc)
  show ?case
  proof (cases "t \<in> set ts")
    case True
    with old show ?thesis by (simp add: first_order_snoc)
  next
    case False
    then have "positions t ts = []" by (simp add: positions_empty_iff)
    then have t: "hd (positions t (ts @ [t])) = length ts" by (simp add: positions_snoc)
    have "\<forall>a\<in>set (first_order ts). hd (positions a (ts @ [t])) < hd (positions t (ts @ [t]))"
      by (simp add: set_first_order hd_positions_snoc hd_positions_less t)
    with old False show ?thesis by (simp add: first_order_snoc sorted_wrt_append)
  qed
qed

lemma dup_groups_sorted: "sorted_wrt (<) (map (\<lambda>g. hd (snd g)) (dup_groups ts))"
proof -
  have "map (\<lambda>g. hd (snd g)) (dup_groups ts)
      = map (\<lambda>t. hd (positions t ts)) (filter (\<lambda>t. 1 < length (positions t ts)) (first_order ts))"
    by (simp add: dup_groups_def group_spec_def filter_map comp_def)
  moreover have "sorted_wrt (\<lambda>a b. hd (positions a ts) < hd (positions b ts))
      (filter (\<lambda>t. 1 < length (positions t ts)) (first_order ts))"
    using first_order_sorted by (rule sorted_wrt_filter)
  ultimately show ?thesis by (simp add: sorted_wrt_map)
qed

section \<open>Partition of the indices\<close>

lemma canon_removed_set:
  "list_all2 (\<lambda>g r. fst r \<in> set (snd g)) gs rs \<Longrightarrow>
   set (map fst rs) \<union>
   set (concat (map (\<lambda>gr. filter (\<lambda>i. i \<noteq> fst (snd gr)) (snd (fst gr))) (zip gs rs)))
     = set (concat (map snd gs))"
proof (induction gs rs rule: list_all2_induct)
  case Nil
  then show ?case by simp
next
  case (Cons g gs r rs)
  have "insert (fst r) {i \<in> set (snd g). i \<noteq> fst r} = set (snd g)" using Cons.hyps(1) by auto
  with Cons.IH show ?case by auto
qed

lemma length_filter_neq:
  "distinct xs \<Longrightarrow> c \<in> set xs \<Longrightarrow> Suc (length (filter (\<lambda>i. i \<noteq> c) xs)) = length xs"
proof -
  assume d: "distinct xs" and c: "c \<in> set xs"
  have "length (filter (\<lambda>i. i = c) xs) + length (filter (\<lambda>i. \<not> i = c) xs) = length xs"
    by (rule sum_length_filter_compl)
  moreover have "length (filter (\<lambda>i. i = c) xs) = 1" using d c by (rule length_filter_eq_distinct)
  ultimately show ?thesis by simp
qed

lemma canon_removed_length:
  "list_all2 (\<lambda>g r. fst r \<in> set (snd g) \<and> distinct (snd g)) gs rs \<Longrightarrow>
   length rs +
   length (concat (map (\<lambda>gr. filter (\<lambda>i. i \<noteq> fst (snd gr)) (snd (fst gr))) (zip gs rs)))
     = length (concat (map snd gs))"
proof (induction gs rs rule: list_all2_induct)
  case Nil
  then show ?case by simp
next
  case (Cons g gs r rs)
  from Cons.hyps(1) have "Suc (length (filter (\<lambda>i. i \<noteq> fst r) (snd g))) = length (snd g)"
    by (simp add: length_filter_neq)
  with Cons.IH show ?case by simp
qed

lemma report_groups:
  assumes "list_all2 (\<lambda>g r. enhance qs (snd g) = Inr r) gs rs"
    and "duplicate_groups rep = map (\<lambda>gr. audit_of (snd (fst gr)) (snd gr)) (zip gs rs)"
  shows "map canonical_index (duplicate_groups rep) = map fst rs"
    and "map duplicate_indices (duplicate_groups rep) = map snd gs"
    and "removed_indices rep
       = concat (map (\<lambda>gr. filter (\<lambda>i. i \<noteq> fst (snd gr)) (snd (fst gr))) (zip gs rs))"
proof -
  have len: "length gs = length rs" using assms(1) by (rule list_all2_lengthD)
  have "map (\<lambda>gr. fst (snd gr)) (zip gs rs) = map fst (map snd (zip gs rs))" by simp
  also have "map snd (zip gs rs) = rs" using len by (rule map_snd_zip)
  finally have z1: "map (\<lambda>gr. fst (snd gr)) (zip gs rs) = map fst rs" .
  have "map (\<lambda>gr. snd (fst gr)) (zip gs rs) = map snd (map fst (zip gs rs))" by simp
  also have "map fst (zip gs rs) = gs" using len by (rule map_fst_zip)
  finally have z2: "map (\<lambda>gr. snd (fst gr)) (zip gs rs) = map snd gs" .
  show "map canonical_index (duplicate_groups rep) = map fst rs"
    unfolding assms(2) using z1 by (simp add: audit_of_def comp_def)
  show "map duplicate_indices (duplicate_groups rep) = map snd gs"
    unfolding assms(2) using z2 by (simp add: audit_of_def comp_def)
  show "removed_indices rep
       = concat (map (\<lambda>gr. filter (\<lambda>i. i \<noteq> fst (snd gr)) (snd (fst gr))) (zip gs rs))"
    unfolding removed_indices_def assms(2) by (simp add: audit_of_def comp_def)
qed

lemma every_index_accounted_once_when_returned:
  assumes "deduplicate_questions questions = Inr (questions', deduplicated, rep)"
  shows "(\<exists>groups. find_duplicates questions = Inr groups \<and>
            map duplicate_indices (duplicate_groups rep) = map snd groups) \<and>
         list_all (\<lambda>g. canonical_index g \<in> set (duplicate_indices g)) (duplicate_groups rep) \<and>
         distinct (emitted_indices rep (length questions) @ removed_indices rep) \<and>
         set (emitted_indices rep (length questions) @ removed_indices rep)
           = {0..<length questions} \<and>
         length deduplicated = length (emitted_indices rep (length questions)) \<and>
         list_all2 (\<lambda>q i. \<forall>key. key \<noteq> ''metadata'' \<and> key \<noteq> ''source_metadata'' \<longrightarrow>
                            map_of q key = map_of (questions ! i) key)
           deduplicated (emitted_indices rep (length questions))"
proof -
  from deduplicate_char[OF assms] obtain ts rs ss where
    ts: "map question_text questions = map Inr ts"
    and fd: "find_duplicates questions = Inr (dup_groups ts)"
    and la: "list_all2 (\<lambda>g r. enhance questions (snd g) = Inr r) (dup_groups ts) rs"
    and la2: "list_all2 (\<lambda>i s. i < length questions \<and> single_record (questions ! i) = Inr s)
                (singles ts) ss"
    and out: "deduplicated = map (\<lambda>r. fst (snd (snd r))) rs @ map snd ss"
    and grs: "duplicate_groups rep =
                map (\<lambda>gr. audit_of (snd (fst gr)) (snd gr)) (zip (dup_groups ts) rs)"
    by blast
  let ?gs = "dup_groups ts"
  let ?M = "concat (map snd ?gs)"
  let ?R = "concat (map (\<lambda>gr. filter (\<lambda>i. i \<noteq> fst (snd gr)) (snd (fst gr))) (zip ?gs rs))"
  have len_ts: "length ts = length questions" using ts by (rule length_texts)
  note rg = report_groups[OF la grs]
  have em: "emitted_indices rep (length questions) = map fst rs @ singles ts"
    by (simp add: emitted_indices_def rg(1,2) singles_def len_ts)
  have len_rs: "length rs = length ?gs" using la by (simp add: list_all2_lengthD)
  have len_ss: "length ss = length (singles ts)" using la2 by (simp add: list_all2_lengthD)
  have at_k: "\<And>k. k < length rs \<Longrightarrow> enhance questions (snd (?gs ! k)) = Inr (rs ! k)"
    using la by (simp add: list_all2_conv_all_nth)
  have member_d: "list_all2 (\<lambda>g r. fst r \<in> set (snd g) \<and> distinct (snd g)) ?gs rs"
    unfolding list_all2_conv_all_nth
  proof (intro conjI allI impI)
    show "length ?gs = length rs" using len_rs by simp
  next
    fix k assume k: "k < length ?gs"
    with len_rs have "k < length rs" by simp
    from enhance_output(1)[OF at_k[OF this]]
    show "fst (rs ! k) \<in> set (snd (?gs ! k))" .
    from k have "?gs ! k \<in> set ?gs" by simp
    then have "snd (?gs ! k) = positions (fst (?gs ! k)) ts" by (simp add: dup_groups_member)
    then show "distinct (snd (?gs ! k))" by (simp add: distinct_positions)
  qed
  then have member: "list_all2 (\<lambda>g r. fst r \<in> set (snd g)) ?gs rs"
    by (rule list_all2_mono) simp
  have M_sub: "set ?M \<subseteq> {0..<length questions}"
    using set_dup_groups_in_range[of _ ts] len_ts by fastforce
  have set_CR: "set (map fst rs) \<union> set ?R = set ?M" using member by (rule canon_removed_set)
  have set_S: "set (singles ts) = {0..<length questions} - set ?M"
    by (auto simp: singles_def len_ts)
  have set_all: "set (emitted_indices rep (length questions) @ removed_indices rep)
      = {0..<length questions}"
  proof -
    have "set (emitted_indices rep (length questions) @ removed_indices rep)
        = (set (map fst rs) \<union> set ?R) \<union> set (singles ts)"
      unfolding em rg(3) by auto
    also have "\<dots> = set ?M \<union> ({0..<length questions} - set ?M)"
      unfolding set_CR set_S ..
    also have "\<dots> = {0..<length questions}" using M_sub by auto
    finally show ?thesis .
  qed
  have len_CR: "length rs + length ?R = length ?M" using member_d by (rule canon_removed_length)
  have len_all: "length (emitted_indices rep (length questions) @ removed_indices rep)
      = length questions"
    unfolding em rg(3) using len_CR length_singles[of ts] len_ts by simp
  have dist_all: "distinct (emitted_indices rep (length questions) @ removed_indices rep)"
  proof (rule card_distinct)
    show "card (set (emitted_indices rep (length questions) @ removed_indices rep))
        = length (emitted_indices rep (length questions) @ removed_indices rep)"
      unfolding set_all len_all by simp
  qed
  have canon_in: "list_all (\<lambda>g. canonical_index g \<in> set (duplicate_indices g))
      (duplicate_groups rep)"
    unfolding grs list_all_iff
  proof
    fix a assume "a \<in> set (map (\<lambda>gr. audit_of (snd (fst gr)) (snd gr)) (zip ?gs rs))"
    then obtain g r where gr: "(g, r) \<in> set (zip ?gs rs)" and a: "a = audit_of (snd g) r"
      by auto
    from gr member have "fst r \<in> set (snd g)"
      by (auto simp: list_all2_iff)
    with a show "canonical_index a \<in> set (duplicate_indices a)" by (simp add: audit_of_def)
  qed
  have len_out: "length deduplicated = length (emitted_indices rep (length questions))"
    unfolding out em using len_ss by simp
  have rel: "list_all2 (\<lambda>q i. \<forall>key. key \<noteq> ''metadata'' \<and> key \<noteq> ''source_metadata'' \<longrightarrow>
                            map_of q key = map_of (questions ! i) key)
           deduplicated (emitted_indices rep (length questions))"
    unfolding out em
  proof (rule list_all2_appendI)
    show "list_all2 (\<lambda>q i. \<forall>key. key \<noteq> ''metadata'' \<and> key \<noteq> ''source_metadata'' \<longrightarrow>
                            map_of q key = map_of (questions ! i) key)
           (map (\<lambda>r. fst (snd (snd r))) rs) (map fst rs)"
      unfolding list_all2_conv_all_nth
    proof (intro conjI allI impI)
      show "length (map (\<lambda>r. fst (snd (snd r))) rs) = length (map fst rs)" by simp
    next
      fix k key assume "k < length (map (\<lambda>r. fst (snd (snd r))) rs)"
        and key: "key \<noteq> ''metadata'' \<and> key \<noteq> ''source_metadata''"
      then have k: "k < length rs" by simp
      from enhance_output(4)[OF at_k[OF k]] key k
      show "map_of (map (\<lambda>r. fst (snd (snd r))) rs ! k) key
          = map_of (questions ! (map fst rs ! k)) key" by simp
    qed
  next
    show "list_all2 (\<lambda>q i. \<forall>key. key \<noteq> ''metadata'' \<and> key \<noteq> ''source_metadata'' \<longrightarrow>
                            map_of q key = map_of (questions ! i) key)
           (map snd ss) (singles ts)"
      unfolding list_all2_conv_all_nth
    proof (intro conjI allI impI)
      show "length (map snd ss) = length (singles ts)" using len_ss by simp
    next
      fix k key assume "k < length (map snd ss)"
        and key: "key \<noteq> ''metadata'' \<and> key \<noteq> ''source_metadata''"
      then have k: "k < length ss" by simp
      with la2 have "single_record (questions ! (singles ts ! k)) = Inr (ss ! k)"
        by (simp add: list_all2_conv_all_nth)
      from single_output(2)[OF this] key k
      show "map_of (map snd ss ! k) key = map_of (questions ! (singles ts ! k)) key" by simp
    qed
  qed
  have "\<exists>groups. find_duplicates questions = Inr groups \<and>
            map duplicate_indices (duplicate_groups rep) = map snd groups"
    using fd rg(2) by blast
  with canon_in dist_all set_all len_out rel show ?thesis by blast
qed


lemma output_in_two_blocks_when_returned:
  assumes "deduplicate_questions questions = Inr (questions', deduplicated, rep)"
  shows "\<exists>ts. map question_text questions = map Inr ts \<and>
     find_duplicates questions = Inr (dup_groups ts) \<and>
     length deduplicated = length (dup_groups ts) + length (singles ts) \<and>
     (\<forall>k<length (dup_groups ts). \<exists>r md.
         enhance questions (snd (dup_groups ts ! k)) = Inr r \<and>
         deduplicated ! k = fst (snd (snd r)) \<and>
         question_text (deduplicated ! k) = Inr (fst (dup_groups ts ! k)) \<and>
         dict_get (deduplicated ! k) ''metadata'' = VDict md \<and>
         dict_get md ''is_deduplicated'' = VBool True) \<and>
     (\<forall>j<length (singles ts). \<exists>s md.
         single_record (questions ! (singles ts ! j)) = Inr s \<and>
         deduplicated ! (length (dup_groups ts) + j) = snd s \<and>
         dict_get (snd s) ''metadata'' = VDict md \<and>
         dict_get md ''is_deduplicated'' = VBool False) \<and>
     (\<forall>g\<in>set (dup_groups ts). snd g = positions (fst g) ts \<and> 2 \<le> length (snd g)) \<and>
     sorted_wrt (<) (map (\<lambda>g. hd (snd g)) (dup_groups ts)) \<and>
     sorted_wrt (<) (singles ts) \<and>
     set (singles ts) = {i. i < length questions \<and> (\<forall>g\<in>set (dup_groups ts). i \<notin> set (snd g))}"
proof -
  from deduplicate_char[OF assms] obtain ts rs ss where
    ts: "map question_text questions = map Inr ts"
    and fd: "find_duplicates questions = Inr (dup_groups ts)"
    and la: "list_all2 (\<lambda>g r. enhance questions (snd g) = Inr r) (dup_groups ts) rs"
    and la2: "list_all2 (\<lambda>i s. i < length questions \<and> single_record (questions ! i) = Inr s)
                (singles ts) ss"
    and out: "deduplicated = map (\<lambda>r. fst (snd (snd r))) rs @ map snd ss"
    by blast
  let ?gs = "dup_groups ts"
  have len_ts: "length ts = length questions" using ts by (rule length_texts)
  have len_rs: "length rs = length ?gs" using la by (simp add: list_all2_lengthD)
  have len_ss: "length ss = length (singles ts)" using la2 by (simp add: list_all2_lengthD)
  have len: "length deduplicated = length ?gs + length (singles ts)"
    unfolding out using len_rs len_ss by simp
  have first: "\<forall>k<length ?gs. \<exists>r md.
         enhance questions (snd (?gs ! k)) = Inr r \<and>
         deduplicated ! k = fst (snd (snd r)) \<and>
         question_text (deduplicated ! k) = Inr (fst (?gs ! k)) \<and>
         dict_get (deduplicated ! k) ''metadata'' = VDict md \<and>
         dict_get md ''is_deduplicated'' = VBool True"
  proof (intro allI impI)
    fix k assume k: "k < length ?gs"
    with la have e: "enhance questions (snd (?gs ! k)) = Inr (rs ! k)"
      by (simp add: list_all2_conv_all_nth)
    from k len_rs have o: "deduplicated ! k = fst (snd (snd (rs ! k)))"
      unfolding out by (simp add: nth_append)
    from k have "?gs ! k \<in> set ?gs" by simp
    from group_canonical_text[OF ts this e] o
    have t: "question_text (deduplicated ! k) = Inr (fst (?gs ! k))" by simp
    from enhance_output(5)[OF e] o obtain md where
      "dict_get (deduplicated ! k) ''metadata'' = VDict md"
      "dict_get md ''is_deduplicated'' = VBool True" by auto
    with e o t show "\<exists>r md.
         enhance questions (snd (?gs ! k)) = Inr r \<and>
         deduplicated ! k = fst (snd (snd r)) \<and>
         question_text (deduplicated ! k) = Inr (fst (?gs ! k)) \<and>
         dict_get (deduplicated ! k) ''metadata'' = VDict md \<and>
         dict_get md ''is_deduplicated'' = VBool True" by blast
  qed
  have second: "\<forall>j<length (singles ts). \<exists>s md.
         single_record (questions ! (singles ts ! j)) = Inr s \<and>
         deduplicated ! (length ?gs + j) = snd s \<and>
         dict_get (snd s) ''metadata'' = VDict md \<and>
         dict_get md ''is_deduplicated'' = VBool False"
  proof (intro allI impI)
    fix j assume j: "j < length (singles ts)"
    with la2 have e: "single_record (questions ! (singles ts ! j)) = Inr (ss ! j)"
      by (simp add: list_all2_conv_all_nth)
    from j len_rs len_ss have o: "deduplicated ! (length ?gs + j) = snd (ss ! j)"
      unfolding out by (simp add: nth_append)
    from single_output(3)[OF e] obtain md where
      "dict_get (snd (ss ! j)) ''metadata'' = VDict md"
      "dict_get md ''is_deduplicated'' = VBool False" by auto
    with e o show "\<exists>s md.
         single_record (questions ! (singles ts ! j)) = Inr s \<and>
         deduplicated ! (length ?gs + j) = snd s \<and>
         dict_get (snd s) ''metadata'' = VDict md \<and>
         dict_get md ''is_deduplicated'' = VBool False" by blast
  qed
  have groups: "\<forall>g\<in>set ?gs. snd g = positions (fst g) ts \<and> 2 \<le> length (snd g)"
    by (auto simp: dup_groups_member)
  have s1: "sorted_wrt (<) (singles ts)" by (simp add: singles_def sorted_wrt_filter)
  have s2: "set (singles ts) = {i. i < length questions \<and> (\<forall>g\<in>set ?gs. i \<notin> set (snd g))}"
    by (auto simp: singles_def len_ts)
  from ts fd len first second groups dup_groups_sorted[of ts] s1 s2 show ?thesis by blast
qed


section \<open>A second run\<close>

lemma distinct_no_groups:
  assumes "distinct us"
  shows "dup_groups us = []"
proof (rule ccontr)
  assume "dup_groups us \<noteq> []"
  then obtain g where "g \<in> set (dup_groups us)" by (cases "dup_groups us") auto
  then have l: "1 < length (positions (fst g) us)" by (simp add: dup_groups_member)
  let ?ps = "positions (fst g) us"
  from l have l0: "0 < length ?ps" and l1: "1 < length ?ps" by linarith+
  have m0: "?ps ! 0 \<in> set ?ps" using l0 by (rule nth_mem)
  have m1: "?ps ! 1 \<in> set ?ps" using l1 by (rule nth_mem)
  have "?ps ! 0 \<noteq> ?ps ! 1"
    using nth_eq_iff_index_eq[OF distinct_positions[of "fst g" us] l0 l1] by simp
  moreover from m0 m1 have "?ps ! 0 < length us" "?ps ! 1 < length us"
    "us ! (?ps ! 0) = us ! (?ps ! 1)" by (simp_all add: set_positions)
  ultimately show False using assms by (simp add: nth_eq_iff_index_eq)
qed

lemma setitem_same: "map_of d k = Some v \<Longrightarrow> setitem d k v = d"
  by (induction d) (auto split: if_splits)

lemma retag_unchanged:
  assumes "dict_get q ''metadata'' = VDict md" and "dict_get md ''is_deduplicated'' = VBool False"
  shows "retag q = q"
proof -
  from assms(2) have "map_of md ''is_deduplicated'' = Some (VBool False)"
    by (auto simp: dict_get_def split: option.splits)
  then have md: "setitem md ''is_deduplicated'' (VBool False) = md" by (rule setitem_same)
  from assms(1) have "map_of q ''metadata'' = Some (VDict md)"
    by (auto simp: dict_get_def split: option.splits)
  then have "setitem q ''metadata'' (VDict md) = q" by (rule setitem_same)
  with assms(1) md show ?thesis by (simp add: retag_def)
qed

lemma single_record_retag:
  assumes "dict_get q ''metadata'' = VDict md"
  shows "single_record q = Inr (retag q, retag q)"
proof -
  from assms have "dict_has q ''metadata''"
    by (auto simp: dict_get_def dict_has_def split: option.splits)
  with assms show ?thesis by (simp add: single_record_def write_metadata_def retag_def Let_def)
qed

lemma single_pass_total:
  assumes "distinct is"
    and "\<forall>i\<in>set is. i < length qs \<and> (\<exists>md. dict_get (qs ! i) ''metadata'' = VDict md)"
  shows "\<exists>qs'. single_pass [] (qs, dd) is = Inr (qs', dd @ map (\<lambda>i. retag (qs ! i)) is) \<and>
           length qs' = length qs"
  using assms
proof (induction "is" arbitrary: qs dd)
  case Nil
  then show ?case by simp
next
  case (Cons i "is")
  from Cons.prems(2) obtain md where i: "i < length qs"
    and md: "dict_get (qs ! i) ''metadata'' = VDict md" by auto
  from single_record_retag[OF md]
  have w: "write_metadata (qs ! i) (qs ! i) [(''is_deduplicated'', VBool False)]
      = Inr (retag (qs ! i), retag (qs ! i))" by (simp add: single_record_def)
  let ?qs1 = "qs[i := retag (qs ! i)]"
  have step: "single_pass [] (qs, dd) (i # is) = single_pass [] (?qs1, dd @ [retag (qs ! i)]) is"
    using i w by (simp add: questions_at_def)
  have d: "distinct is" and ni: "i \<notin> set is" using Cons.prems(1) by simp_all
  have same: "\<forall>j\<in>set is. ?qs1 ! j = qs ! j"
  proof
    fix j assume "j \<in> set is"
    with ni have "i \<noteq> j" by auto
    then show "?qs1 ! j = qs ! j" by simp
  qed
  have pre: "\<forall>j\<in>set is. j < length ?qs1 \<and> (\<exists>md. dict_get (?qs1 ! j) ''metadata'' = VDict md)"
    using Cons.prems(2) same by simp
  from Cons.IH[OF d pre, of "dd @ [retag (qs ! i)]"] obtain qs' where
    r: "single_pass [] (?qs1, dd @ [retag (qs ! i)]) is
        = Inr (qs', (dd @ [retag (qs ! i)]) @ map (\<lambda>j. retag (?qs1 ! j)) is)"
    and l: "length qs' = length ?qs1" by blast
  have "map (\<lambda>j. retag (?qs1 ! j)) is = map (\<lambda>j. retag (qs ! j)) is"
    using same by (intro map_cong) auto
  with r step l show ?case by simp
qed

lemma output_has_metadata:
  assumes "deduplicate_questions qs = Inr (qs', out, rep)"
  shows "\<forall>q\<in>set out. \<exists>md. dict_get q ''metadata'' = VDict md"
proof -
  from deduplicate_char[OF assms] obtain ts rs ss where
    la: "list_all2 (\<lambda>g r. enhance qs (snd g) = Inr r) (dup_groups ts) rs"
    and la2: "list_all2 (\<lambda>i s. i < length qs \<and> single_record (qs ! i) = Inr s) (singles ts) ss"
    and out: "out = map (\<lambda>r. fst (snd (snd r))) rs @ map snd ss"
    by blast
  have a: "\<forall>r\<in>set rs. \<exists>md. dict_get (fst (snd (snd r))) ''metadata'' = VDict md"
  proof
    fix r assume "r \<in> set rs"
    then obtain k where k: "k < length rs" "rs ! k = r" by (auto simp: in_set_conv_nth)
    with la have "enhance qs (snd (dup_groups ts ! k)) = Inr r"
      by (auto simp: list_all2_conv_all_nth)
    from enhance_output(5)[OF this]
    show "\<exists>md. dict_get (fst (snd (snd r))) ''metadata'' = VDict md" by blast
  qed
  have b: "\<forall>s\<in>set ss. \<exists>md. dict_get (snd s) ''metadata'' = VDict md"
  proof
    fix s assume "s \<in> set ss"
    then obtain k where k: "k < length ss" "ss ! k = s" by (auto simp: in_set_conv_nth)
    with la2 have "single_record (qs ! (singles ts ! k)) = Inr s"
      by (auto simp: list_all2_conv_all_nth)
    from single_output(3)[OF this]
    show "\<exists>md. dict_get (snd s) ''metadata'' = VDict md" by blast
  qed
  from a b show ?thesis unfolding out by auto
qed

lemma deduplicate_distinct_texts:
  assumes "map question_text qs = map Inr us" and "distinct us"
    and "\<forall>q\<in>set qs. \<exists>md. dict_get q ''metadata'' = VDict md"
  shows "\<exists>qs'. deduplicate_questions qs = Inr (qs', map retag qs,
           \<lparr>total_original = int (length qs),
            total_duplicates_found = 0,
            total_duplicate_instances = 0,
            duplicate_groups = [],
            total_after_deduplication = int (length qs),
            questions_removed = 0\<rparr>)"
proof -
  have fd: "find_duplicates qs = Inr []"
    using find_duplicates_ok[OF assms(1)] distinct_no_groups[OF assms(2)]
    by (simp add: dup_groups_def)
  have keep: "sorted_list_of_set (set [0..<length qs]) = [0..<length qs]"
    using sorted_list_of_filter_upt[of "\<lambda>i. True" "length qs"] by simp
  have pre: "\<forall>i\<in>set [0..<length qs]. i < length qs \<and>
               (\<exists>md. dict_get (qs ! i) ''metadata'' = VDict md)"
    using assms(3) by simp
  from single_pass_total[OF distinct_upt pre, of "[]"] obtain qs' where
    sp: "single_pass [] (qs, []) [0..<length qs]
          = Inr (qs', [] @ map (\<lambda>i. retag (qs ! i)) [0..<length qs])" by blast
  have "map (\<lambda>i. retag (qs ! i)) [0..<length qs] = map retag (map (\<lambda>i. qs ! i) [0..<length qs])"
    by simp
  also have "\<dots> = map retag qs" by (simp only: map_nth)
  finally have m: "map (\<lambda>i. retag (qs ! i)) [0..<length qs] = map retag qs" .
  have "deduplicate_questions qs = Inr (qs', map retag qs,
           \<lparr>total_original = int (length qs),
            total_duplicates_found = 0,
            total_duplicate_instances = 0,
            duplicate_groups = [],
            total_after_deduplication = int (length qs),
            questions_removed = 0\<rparr>)"
    unfolding deduplicate_questions_def fd
    using sp m by (simp add: keep Let_def del: set_upt)
  then show ?thesis by blast
qed

text \<open>
  Claim C5, as the code has it. When a first run returns, a second run on its output
  returns too, with no duplicate group in its report and as many output records as it
  was given; its output is the first output, record by record and in the same order,
  with \<^verbatim>\<open>metadata.is_deduplicated\<close> set to false. A record already tagged false is
  unchanged by that; a canonical record, tagged true by the first run, is not.
\<close>

theorem second_run_retags:
  "(deduplicate_questions questions = Inr (questions1, deduplicated, rep1) \<longrightarrow>
      (\<exists>questions2 rep2.
          rerun questions = Inr (questions2, map retag deduplicated, rep2) \<and>
          total_duplicates_found rep2 = 0 \<and> duplicate_groups rep2 = [] \<and>
          total_after_deduplication rep2 = int (length deduplicated))) \<and>
   (dict_get q ''metadata'' = VDict md \<and> dict_get md ''is_deduplicated'' = VBool False \<longrightarrow>
      retag q = q)"
proof (intro conjI impI)
  assume d: "deduplicate_questions questions = Inr (questions1, deduplicated, rep1)"
  from output_texts[OF d] obtain ts where
    out: "map question_text deduplicated
             = map Inr (map fst (dup_groups ts) @ map (\<lambda>i. ts ! i) (singles ts))" by blast
  from deduplicate_distinct_texts[OF out distinct_output_texts output_has_metadata[OF d]]
  obtain questions2 where
    "deduplicate_questions deduplicated = Inr (questions2, map retag deduplicated,
           \<lparr>total_original = int (length deduplicated),
            total_duplicates_found = 0,
            total_duplicate_instances = 0,
            duplicate_groups = [],
            total_after_deduplication = int (length deduplicated),
            questions_removed = 0\<rparr>)" by blast
  with d show "\<exists>questions2 rep2.
          rerun questions = Inr (questions2, map retag deduplicated, rep2) \<and>
          total_duplicates_found rep2 = 0 \<and> duplicate_groups rep2 = [] \<and>
          total_after_deduplication rep2 = int (length deduplicated)"
    by (simp add: rerun_def)
next
  assume "dict_get q ''metadata'' = VDict md \<and> dict_get md ''is_deduplicated'' = VBool False"
  then show "retag q = q" using retag_unchanged by blast
qed

theorem second_run_retags_witness:
  "(\<exists>questions1 deduplicated rep1 questions2 rep2.
      deduplicate_questions example_corpus = Inr (questions1, deduplicated, rep1) \<and>
      rerun example_corpus = Inr (questions2, map retag deduplicated, rep2) \<and>
      total_duplicates_found rep2 = 0 \<and> duplicate_groups rep2 = [] \<and>
      total_after_deduplication rep2 = 2) \<and>
   retag [(''question'', VStr ''Define SQL.''),
          (''metadata'', VDict [(''is_deduplicated'', VBool False)])]
     = [(''question'', VStr ''Define SQL.''),
        (''metadata'', VDict [(''is_deduplicated'', VBool False)])]"
proof -
  let ?q = "[(''question'', VStr ''Define SQL.''),
             (''metadata'', VDict [(''is_deduplicated'', VBool False)])] :: pydict"
  let ?md = "[(''is_deduplicated'', VBool False)] :: pydict"
  have "\<not> isl (deduplicate_questions example_corpus)" by code_simp
  then obtain q1 d rep1 where ev: "deduplicate_questions example_corpus = Inr (q1, d, rep1)"
    by (cases "deduplicate_questions example_corpus") auto
  have "(case deduplicate_questions example_corpus of
           Inl e \<Rightarrow> False | Inr r \<Rightarrow> length (fst (snd r)) = 2)" by code_simp
  with ev have len: "length d = 2" by simp
  have h: "dict_get ?q ''metadata'' = VDict ?md \<and>
           dict_get ?md ''is_deduplicated'' = VBool False"
    by (simp add: dict_get_def)
  note t = second_run_retags[of example_corpus q1 d rep1 ?q ?md]
  from t ev len have c1: "\<exists>questions2 rep2.
          rerun example_corpus = Inr (questions2, map retag d, rep2) \<and>
          total_duplicates_found rep2 = 0 \<and> duplicate_groups rep2 = [] \<and>
          total_after_deduplication rep2 = 2" by simp
  from t h have c2: "retag ?q = ?q" by blast
  from ev c1 c2 show ?thesis by blast
qed

text \<open>On the end-to-end scenario the second run gives another output than the first: the
  metadata of the canonical record differs.\<close>

theorem second_run_changes_output:
  "(case (deduplicate_questions example_corpus, rerun example_corpus) of
      (Inr r1, Inr r2) \<Rightarrow>
         dict_get (fst (snd r1) ! 0) ''metadata'' \<noteq> dict_get (fst (snd r2) ! 0) ''metadata'' \<and>
         fst (snd r2) \<noteq> fst (snd r1)
    | _ \<Rightarrow> False)"
  by code_simp

section \<open>The input list after the run\<close>

text \<open>
  Claim C7 fails on the code. On a corpus whose records carry metadata, the list the run
  leaves behind is not the list it was given: the canonical record of the group has
  received \<^verbatim>\<open>source_pdfs\<close>, \<^verbatim>\<open>years_found\<close>, \<^verbatim>\<open>is_deduplicated\<close> and
  \<^verbatim>\<open>duplicate_count\<close> in its metadata, and the record outside every group has
  received \<^verbatim>\<open>is_deduplicated\<close>. The caller's key \<^verbatim>\<open>topic\<close> is kept.
\<close>

theorem input_metadata_is_written:
  "deduplicate_questions metadata_corpus = Inr
    ([[(''question'', VStr ''What is OOP?''), (''unit'', VStr ''BBIT106''),
       (''year'', VStr ''2019''),
       (''metadata'', VDict
          [(''topic'', VStr ''oop''), (''source_pdfs'', VList []),
           (''years_found'', VList [VStr ''2019'', VStr ''2020'']),
           (''is_deduplicated'', VBool True), (''duplicate_count'', VInt 2)])],
      [(''question'', VStr ''What is OOP?''), (''unit'', VStr ''Unknown''),
       (''year'', VStr ''2020'')],
      [(''question'', VStr ''Define SQL.''),
       (''metadata'', VDict [(''topic'', VStr ''db''), (''is_deduplicated'', VBool False)])]],
     [[(''question'', VStr ''What is OOP?''), (''unit'', VStr ''BBIT106''),
       (''year'', VStr ''2019''),
       (''metadata'', VDict
          [(''topic'', VStr ''oop''), (''source_pdfs'', VList []),
           (''years_found'', VList [VStr ''2019'', VStr ''2020'']),
           (''is_deduplicated'', VBool True), (''duplicate_count'', VInt 2)]),
       (''source_metadata'', VDict
          [(''source_pdfs'', VList []),
           (''years_found'', VList [VStr ''2019'', VStr ''2020'']),
           (''all_sources'', VList
             [VDict [(''year'', VStr ''2019''), (''source_file'', VNone),
                     (''question_number'', VNone), (''original_index'', VInt 0)],
              VDict [(''year'', VStr ''2020''), (''source_file'', VNone),
                     (''question_number'', VNone), (''original_index'', VInt 1)]]),
           (''duplicate_count'', VInt 2)])],
      [(''question'', VStr ''Define SQL.''),
       (''metadata'', VDict [(''topic'', VStr ''db''), (''is_deduplicated'', VBool False)])]],
     \<lparr>total_original = 3, total_duplicates_found = 1, total_duplicate_instances = 1,
      duplicate_groups =
        [\<lparr>canonical_index = 0, canonical_unit = VStr ''BBIT106'',
          canonical_year = VStr ''2019'', duplicate_indices = [0, 1],
          merged_sources =
            [(''source_pdfs'', VList []),
             (''years_found'', VList [VStr ''2019'', VStr ''2020'']),
             (''all_sources'', VList
               [VDict [(''year'', VStr ''2019''), (''source_file'', VNone),
                       (''question_number'', VNone), (''original_index'', VInt 0)],
                VDict [(''year'', VStr ''2020''), (''source_file'', VNone),
                       (''question_number'', VNone), (''original_index'', VInt 1)]]),
             (''duplicate_count'', VInt 2)]\<rparr>],
      total_after_deduplication = 2, questions_removed = 1\<rparr>)"
  by code_simp

section \<open>Corpora on which the run returns\<close>

lemma not_isl_iff: "\<not> isl x \<longleftrightarrow> (\<exists>y. x = Inr y)"
  by (cases x) auto

lemma year_of_setitem: "k \<noteq> ''year'' \<Longrightarrow> year_of (setitem q k v) = year_of q"
  by (simp add: year_of_def dict_get_setitem dict_get_default_setitem)

lemma record_ok_setitem_metadata:
  "record_ok q \<Longrightarrow> record_ok (setitem q ''metadata'' (VDict md))"
  by (simp add: record_ok_def question_text_setitem year_of_setitem dict_get_setitem
      dict_has_setitem)

lemma write_metadata_total:
  assumes "dict_has q ''metadata'' \<longrightarrow> is_dict (dict_get q ''metadata'')"
  shows "\<exists>original' q'. write_metadata original q kvs = Inr (original', q') \<and>
           (original' = original \<or> (\<exists>md. original' = setitem original ''metadata'' (VDict md)))"
proof (cases "dict_has q ''metadata''")
  case False
  then show ?thesis by (simp add: write_metadata_def)
next
  case True
  with assms obtain md where "dict_get q ''metadata'' = VDict md"
    by (cases "dict_get q ''metadata''") auto
  with True show ?thesis by (auto simp: write_metadata_def Let_def)
qed

lemma enhance_total:
  assumes "\<forall>q\<in>set qs. record_ok q" and "is \<noteq> []" and "\<forall>i\<in>set is. i < length qs"
  shows "\<exists>r. enhance qs is = Inr r \<and> record_ok (fst (snd r))"
proof -
  have ok: "\<And>i. i \<in> set is \<Longrightarrow> record_ok (qs ! i)" using assms(1,3) by simp
  have "\<forall>i\<in>set is. i < length qs \<and> (\<exists>y. year_of (qs ! i) = Inr y)"
    using assms(3) ok by (auto simp: record_ok_def not_isl_iff)
  from select_canonical_total[OF assms(2) this] obtain c cq where
    sel: "select_canonical_version qs is = Inr (c, cq)" by auto
  from select_canonical_member[OF sel] have c: "c \<in> set is" and cq: "cq = qs ! c" by simp_all
  have "\<forall>i\<in>set is. i < length qs \<and>
             (truthy (dict_get (qs ! i) ''year'') \<longrightarrow>
                (\<exists>s. py_str (dict_get (qs ! i) ''year'') = Inr s)) \<and>
             (truthy (dict_get (qs ! i) ''source_file'') \<longrightarrow>
                is_str (dict_get (qs ! i) ''source_file''))"
    using assms(3) ok by (auto simp: record_ok_def not_isl_iff)
  from merge_sources_ok[OF this] obtain m where m: "merge_sources qs is = Inr m" by blast
  have rok: "record_ok cq" using ok[OF c] cq by simp
  then have "dict_has (setitem cq ''source_metadata'' (VDict m)) ''metadata'' \<longrightarrow>
      is_dict (dict_get (setitem cq ''source_metadata'' (VDict m)) ''metadata'')"
    by (simp add: record_ok_def dict_has_setitem dict_get_setitem)
  from write_metadata_total[OF this, of cq
      "[(''source_pdfs'', dict_get m ''source_pdfs''),
        (''years_found'', dict_get m ''years_found''),
        (''is_deduplicated'', VBool True),
        (''duplicate_count'', dict_get m ''duplicate_count'')]"]
  obtain cq' eq where
    w: "write_metadata cq (setitem cq ''source_metadata'' (VDict m))
          [(''source_pdfs'', dict_get m ''source_pdfs''),
           (''years_found'', dict_get m ''years_found''),
           (''is_deduplicated'', VBool True),
           (''duplicate_count'', dict_get m ''duplicate_count'')] = Inr (cq', eq)"
    and cq': "cq' = cq \<or> (\<exists>md. cq' = setitem cq ''metadata'' (VDict md))" by blast
  have "enhance qs is = Inr (c, cq', eq, m)"
    unfolding enhance_def using sel m w by simp
  moreover have "record_ok cq'" using cq' rok record_ok_setitem_metadata by auto
  ultimately show ?thesis by auto
qed

lemma record_ok_update:
  "\<forall>q\<in>set qs. record_ok q \<Longrightarrow> record_ok q' \<Longrightarrow> \<forall>q\<in>set (qs[i := q']). record_ok q"
  by (metis insert_iff set_update_subset_insert subsetD)

lemma group_pass_total:
  assumes "\<forall>q\<in>set qs. record_ok q"
    and "\<forall>g\<in>set gs. snd g \<noteq> [] \<and> (\<forall>i\<in>set (snd g). i < length qs)"
  shows "\<exists>qs' dd' keep' grs'. group_pass (qs, dd, keep, grs) gs = Inr (qs', dd', keep', grs') \<and>
           (\<forall>q\<in>set qs'. record_ok q) \<and> length qs' = length qs"
  using assms
proof (induction gs arbitrary: qs dd keep grs)
  case Nil
  then show ?case by simp
next
  case (Cons g gs)
  from Cons.prems have ne: "snd g \<noteq> []" and rng: "\<forall>i\<in>set (snd g). i < length qs" by simp_all
  from enhance_total[OF Cons.prems(1) ne rng] obtain r where
    r: "enhance qs (snd g) = Inr r" and rok: "record_ok (fst (snd r))" by blast
  let ?qs1 = "qs[fst r := fst (snd r)]"
  have step: "process_group (qs, dd, keep, grs) g =
      Inr (?qs1, dd @ [fst (snd (snd r))],
           keep - (set (snd g) - {fst r}), grs @ [audit_of (snd g) r])"
    unfolding process_group_enhance r by simp
  have ok1: "\<forall>q\<in>set ?qs1. record_ok q" using Cons.prems(1) rok by (rule record_ok_update)
  have rest: "\<forall>g\<in>set gs. snd g \<noteq> [] \<and> (\<forall>i\<in>set (snd g). i < length ?qs1)"
    using Cons.prems(2) by simp
  from Cons.IH[OF ok1 rest, of "dd @ [fst (snd (snd r))]"
      "keep - (set (snd g) - {fst r})" "grs @ [audit_of (snd g) r]"]
  obtain qs' dd' keep' grs' where
    "group_pass (?qs1, dd @ [fst (snd (snd r))], keep - (set (snd g) - {fst r}),
        grs @ [audit_of (snd g) r]) gs = Inr (qs', dd', keep', grs')"
    and "\<forall>q\<in>set qs'. record_ok q" and "length qs' = length ?qs1" by blast
  with step show ?case by simp
qed

lemma single_pass_returns:
  assumes "\<forall>q\<in>set qs. record_ok q" and "\<forall>i\<in>set is. i < length qs"
  shows "\<exists>st'. single_pass canon (qs, dd) is = Inr st'"
  using assms
proof (induction "is" arbitrary: qs dd)
  case Nil
  then show ?case by simp
next
  case (Cons i "is")
  from Cons.prems have i: "i < length qs" and rest: "\<forall>i\<in>set is. i < length qs" by simp_all
  show ?case
  proof (cases "i \<in> set canon")
    case True
    with Cons.IH[OF Cons.prems(1) rest] show ?thesis by simp
  next
    case False
    have ok: "record_ok (qs ! i)" using Cons.prems(1) i by simp
    then have "dict_has (qs ! i) ''metadata'' \<longrightarrow> is_dict (dict_get (qs ! i) ''metadata'')"
      by (simp add: record_ok_def)
    from write_metadata_total[OF this, of "qs ! i" "[(''is_deduplicated'', VBool False)]"]
    obtain o' q' where
      w: "write_metadata (qs ! i) (qs ! i) [(''is_deduplicated'', VBool False)] = Inr (o', q')"
      and o': "o' = qs ! i \<or> (\<exists>md. o' = setitem (qs ! i) ''metadata'' (VDict md))" by blast
    have "record_ok o'" using o' ok record_ok_setitem_metadata by auto
    with Cons.prems(1) have ok1: "\<forall>q\<in>set (qs[i := o']). record_ok q" by (rule record_ok_update)
    have rest1: "\<forall>j\<in>set is. j < length (qs[i := o'])" using rest by simp
    from Cons.IH[OF ok1 rest1, of "dd @ [q']"] obtain st' where
      "single_pass canon (qs[i := o'], dd @ [q']) is = Inr st'" by blast
    with False i w show ?thesis by (simp add: questions_at_def)
  qed
qed

lemma deduplicate_returns:
  assumes "\<forall>q\<in>set qs. record_ok q"
  shows "\<exists>r. deduplicate_questions qs = Inr r"
proof -
  have "\<forall>q\<in>set qs. \<exists>t. question_text q = Inr t"
    using assms by (simp add: record_ok_def not_isl_iff)
  then obtain ts where ts: "map question_text qs = map Inr ts" using texts_exist by blast
  have len_ts: "length ts = length qs" using ts by (rule length_texts)
  have fd: "find_duplicates qs = Inr (dup_groups ts)"
    using find_duplicates_ok[OF ts] by (simp add: dup_groups_def)
  have gs: "\<forall>g\<in>set (dup_groups ts). snd g \<noteq> [] \<and> (\<forall>i\<in>set (snd g). i < length qs)"
  proof (intro ballI conjI)
    fix g assume g: "g \<in> set (dup_groups ts)"
    then have "1 < length (snd g)" by (simp add: dup_groups_member)
    then show "snd g \<noteq> []" by auto
    fix i assume "i \<in> set (snd g)"
    with g have "i \<in> set (concat (map snd (dup_groups ts)))" by auto
    from set_dup_groups_in_range[OF this] len_ts show "i < length qs" by simp
  qed
  from group_pass_total[OF assms gs, of "[]" "set [0..<length qs]" "[]"]
  obtain qs1 dd1 keep grs where
    gp: "group_pass (qs, [], set [0..<length qs], []) (dup_groups ts) = Inr (qs1, dd1, keep, grs)"
    and ok1: "\<forall>q\<in>set qs1. record_ok q" and len1: "length qs1 = length qs" by blast
  have dist: "distinct (concat (map snd (dup_groups ts)))" by (rule dup_groups_disjoint)
  have agree0: "\<forall>i\<in>set (concat (map snd (dup_groups ts))). i < length qs \<longrightarrow> qs ! i = qs ! i"
    by simp
  from group_pass_char[OF gp refl agree0 dist] have keep: "keep \<subseteq> {0..<length qs}"
    by auto
  then have "finite keep" by (rule finite_subset) simp
  then have "\<forall>i\<in>set (sorted_list_of_set keep). i < length qs1"
    unfolding len1 using keep by auto
  from single_pass_returns[OF ok1 this, of "map canonical_index grs" dd1] obtain st2 where
    sp: "single_pass (map canonical_index grs) (qs1, dd1) (sorted_list_of_set keep) = Inr st2"
    by blast
  obtain qs2 dd2 where st2: "st2 = (qs2, dd2)" by (cases st2)
  show ?thesis
    unfolding deduplicate_questions_def fd using gp sp st2 by (simp add: Let_def del: set_upt)
qed

section \<open>The run as a whole\<close>

text \<open>
  Claim C1. On a corpus of records the engine accepts, \<^verbatim>\<open>deduplicate_questions\<close>
  returns. Whenever it returns, the groups of the report are the groups
  \<^verbatim>\<open>find_duplicates\<close> found and the canonical index of each is one of its members.
  The list of the emitted indices (the canonical index of each group, then the indices
  outside every group) followed by the removed indices (the other members of each group)
  has no repetition and holds exactly the indices \<^verbatim>\<open>0..N-1\<close>: every index is in
  exactly one of the three classes. The output has one record per emitted index, in that
  order, and the record agrees with the input record at that index on every key other
  than \<^verbatim>\<open>metadata\<close> and \<^verbatim>\<open>source_metadata\<close>.
\<close>

theorem every_index_accounted_once:
  "((\<forall>q\<in>set questions. record_ok q) \<longrightarrow> (\<exists>r. deduplicate_questions questions = Inr r)) \<and>
   (deduplicate_questions questions = Inr (questions', deduplicated, rep) \<longrightarrow>
      (\<exists>groups. find_duplicates questions = Inr groups \<and>
            map duplicate_indices (duplicate_groups rep) = map snd groups) \<and>
      list_all (\<lambda>g. canonical_index g \<in> set (duplicate_indices g)) (duplicate_groups rep) \<and>
      distinct (emitted_indices rep (length questions) @ removed_indices rep) \<and>
      set (emitted_indices rep (length questions) @ removed_indices rep)
        = {0..<length questions} \<and>
      length deduplicated = length (emitted_indices rep (length questions)) \<and>
      list_all2 (\<lambda>q i. \<forall>key. key \<noteq> ''metadata'' \<and> key \<noteq> ''source_metadata'' \<longrightarrow>
                         map_of q key = map_of (questions ! i) key)
        deduplicated (emitted_indices rep (length questions)))"
  using deduplicate_returns[of questions]
    every_index_accounted_once_when_returned[of questions questions' deduplicated rep]
  by blast

theorem every_index_accounted_once_witness:
  "list_all record_ok example_corpus \<and>
   (\<exists>questions' deduplicated rep.
      deduplicate_questions example_corpus = Inr (questions', deduplicated, rep) \<and>
      emitted_indices rep 3 = [1, 2] \<and> removed_indices rep = [0] \<and>
      distinct (emitted_indices rep 3 @ removed_indices rep) \<and>
      set (emitted_indices rep 3 @ removed_indices rep) = {0..<3} \<and>
      length deduplicated = 2 \<and>
      list_all2 (\<lambda>q i. \<forall>key. key \<noteq> ''metadata'' \<and> key \<noteq> ''source_metadata'' \<longrightarrow>
                         map_of q key = map_of (example_corpus ! i) key)
        deduplicated [1, 2])"
proof -
  have la: "list_all record_ok example_corpus" by code_simp
  then have ok: "\<forall>q\<in>set example_corpus. record_ok q" by (simp add: list_all_iff)
  with every_index_accounted_once[of example_corpus]
  obtain r where "deduplicate_questions example_corpus = Inr r" by blast
  then obtain q d rep where ev: "deduplicate_questions example_corpus = Inr (q, d, rep)"
    by (cases r) auto
  have "(case deduplicate_questions example_corpus of
           Inl e \<Rightarrow> False
         | Inr r \<Rightarrow> emitted_indices (snd (snd r)) 3 = [1, 2] \<and>
                    removed_indices (snd (snd r)) = [0])" by code_simp
  with ev have em: "emitted_indices rep 3 = [1, 2]" and rm: "removed_indices rep = [0]"
    by simp_all
  have n: "length example_corpus = 3" by (simp add: example_corpus_def)
  from every_index_accounted_once[of example_corpus q d rep] ev have
    "distinct (emitted_indices rep 3 @ removed_indices rep) \<and>
     set (emitted_indices rep 3 @ removed_indices rep) = {0..<3} \<and>
     length d = length (emitted_indices rep 3) \<and>
     list_all2 (\<lambda>q i. \<forall>key. key \<noteq> ''metadata'' \<and> key \<noteq> ''source_metadata'' \<longrightarrow>
                            map_of q key = map_of (example_corpus ! i) key)
           d (emitted_indices rep 3)"
    unfolding n by blast
  with em rm ev la show ?thesis
    by (intro conjI exI[of _ q] exI[of _ d] exI[of _ rep]) simp_all
qed

text \<open>
  Claim C4. On a corpus of records the engine accepts, \<^verbatim>\<open>deduplicate_questions\<close>
  returns. Whenever it returns, the output is two blocks. The first holds, for the k-th
  duplicate group, the enhanced copy of its canonical record, whose key is the group's
  text and whose \<^verbatim>\<open>metadata.is_deduplicated\<close> is true; a group lists all positions
  of its text, so its head is where the text was first met, and the heads increase along
  the groups. The second holds, for the j-th index outside every group, in ascending
  order, the copy of that record with \<^verbatim>\<open>metadata.is_deduplicated\<close> false.
\<close>

theorem output_in_two_blocks:
  "((\<forall>q\<in>set questions. record_ok q) \<longrightarrow> (\<exists>r. deduplicate_questions questions = Inr r)) \<and>
   (deduplicate_questions questions = Inr (questions', deduplicated, rep) \<longrightarrow>
    (\<exists>ts. map question_text questions = map Inr ts \<and>
     find_duplicates questions = Inr (dup_groups ts) \<and>
     length deduplicated = length (dup_groups ts) + length (singles ts) \<and>
     (\<forall>k<length (dup_groups ts). \<exists>r md.
         enhance questions (snd (dup_groups ts ! k)) = Inr r \<and>
         deduplicated ! k = fst (snd (snd r)) \<and>
         question_text (deduplicated ! k) = Inr (fst (dup_groups ts ! k)) \<and>
         dict_get (deduplicated ! k) ''metadata'' = VDict md \<and>
         dict_get md ''is_deduplicated'' = VBool True) \<and>
     (\<forall>j<length (singles ts). \<exists>s md.
         single_record (questions ! (singles ts ! j)) = Inr s \<and>
         deduplicated ! (length (dup_groups ts) + j) = snd s \<and>
         dict_get (snd s) ''metadata'' = VDict md \<and>
         dict_get md ''is_deduplicated'' = VBool False) \<and>
     (\<forall>g\<in>set (dup_groups ts). snd g = positions (fst g) ts \<and> 2 \<le> length (snd g)) \<and>
     sorted_wrt (<) (map (\<lambda>g. hd (snd g)) (dup_groups ts)) \<and>
     sorted_wrt (<) (singles ts) \<and>
     set (singles ts) =
       {i. i < length questions \<and> (\<forall>g\<in>set (dup_groups ts). i \<notin> set (snd g))}))"
  using deduplicate_returns[of questions]
    output_in_two_blocks_when_returned[of questions questions' deduplicated rep]
  by blast

theorem output_in_two_blocks_witness:
  "list_all record_ok example_corpus \<and>
   (\<exists>questions' deduplicated rep.
      deduplicate_questions example_corpus = Inr (questions', deduplicated, rep) \<and>
      find_duplicates example_corpus = Inr [(''What is OOP?'', [0, 1])] \<and>
      length deduplicated = 2 \<and>
      question_text (deduplicated ! 0) = Inr ''What is OOP?'' \<and>
      (\<exists>md. dict_get (deduplicated ! 0) ''metadata'' = VDict md \<and>
            dict_get md ''is_deduplicated'' = VBool True) \<and>
      (\<exists>s md. single_record (example_corpus ! 2) = Inr s \<and> deduplicated ! 1 = snd s \<and>
            dict_get (snd s) ''metadata'' = VDict md \<and>
            dict_get md ''is_deduplicated'' = VBool False))"
proof -
  let ?ts = "[''What is OOP?'', ''What is OOP?'', ''Define SQL.'']"
  have la: "list_all record_ok example_corpus" by code_simp
  then have ok: "\<forall>q\<in>set example_corpus. record_ok q" by (simp add: list_all_iff)
  with output_in_two_blocks[of example_corpus]
  obtain r where "deduplicate_questions example_corpus = Inr r" by blast
  then obtain q d rep where ev: "deduplicate_questions example_corpus = Inr (q, d, rep)"
    by (cases r) auto
  have qt: "map question_text example_corpus = map Inr ?ts" by code_simp
  have dg: "dup_groups ?ts = [(''What is OOP?'', [0, 1])]" by code_simp
  have sg: "singles ?ts = [2]" by code_simp
  from output_in_two_blocks[of example_corpus q d rep] ev obtain ts where
    ts: "map question_text example_corpus = map Inr ts"
    and fd: "find_duplicates example_corpus = Inr (dup_groups ts)"
    and len: "length d = length (dup_groups ts) + length (singles ts)"
    and first: "\<forall>k<length (dup_groups ts). \<exists>r md.
         enhance example_corpus (snd (dup_groups ts ! k)) = Inr r \<and>
         d ! k = fst (snd (snd r)) \<and>
         question_text (d ! k) = Inr (fst (dup_groups ts ! k)) \<and>
         dict_get (d ! k) ''metadata'' = VDict md \<and>
         dict_get md ''is_deduplicated'' = VBool True"
    and second: "\<forall>j<length (singles ts). \<exists>s md.
         single_record (example_corpus ! (singles ts ! j)) = Inr s \<and>
         d ! (length (dup_groups ts) + j) = snd s \<and>
         dict_get (snd s) ''metadata'' = VDict md \<and>
         dict_get md ''is_deduplicated'' = VBool False"
    by blast
  from ts qt have "map Inr ts = (map Inr ?ts :: (error + string) list)" by simp
  then have ts_eq: "ts = ?ts" by (simp only: inj_map_eq_map[OF inj_Inr])
  from fd have c1: "find_duplicates example_corpus = Inr [(''What is OOP?'', [0, 1])]"
    by (simp only: ts_eq dg)
  from len have c2: "length d = 2" by (simp only: ts_eq dg sg) simp
  from first[rule_format, of 0] have c3: "question_text (d ! 0) = Inr ''What is OOP?'' \<and>
      (\<exists>md. dict_get (d ! 0) ''metadata'' = VDict md \<and>
            dict_get md ''is_deduplicated'' = VBool True)"
    unfolding ts_eq dg by auto
  from second[rule_format, of 0] have c4: "\<exists>s md. single_record (example_corpus ! 2) = Inr s \<and>
            d ! 1 = snd s \<and> dict_get (snd s) ''metadata'' = VDict md \<and>
            dict_get md ''is_deduplicated'' = VBool False"
    unfolding ts_eq dg sg by simp
  from la ev c1 c2 c3 c4 show ?thesis by blast
qed

text \<open>
  Claim C9. On a corpus of records the engine accepts, \<^verbatim>\<open>deduplicate_questions\<close>
  returns. Whenever it returns for an input of size N, the report's
  \<^verbatim>\<open>total_duplicate_instances\<close> is the sum over the duplicate groups of the group size
  minus one, \<^verbatim>\<open>total_after_deduplication\<close> is the length of the output and equals N
  minus \<^verbatim>\<open>total_duplicate_instances\<close>, and
  \<^verbatim>\<open>total_after_deduplication + questions_removed = N\<close>.
\<close>

theorem report_counts:
  "((\<forall>q\<in>set questions. record_ok q) \<longrightarrow> (\<exists>r. deduplicate_questions questions = Inr r)) \<and>
   (deduplicate_questions questions = Inr (questions', deduplicated, rep) \<longrightarrow>
    (\<exists>groups. find_duplicates questions = Inr groups \<and>
     total_original rep = int (length questions) \<and>
     total_duplicate_instances rep = sum_list (map (\<lambda>g. int (length (snd g)) - 1) groups) \<and>
     total_after_deduplication rep = int (length deduplicated) \<and>
     total_after_deduplication rep = int (length questions) - total_duplicate_instances rep \<and>
     total_after_deduplication rep + questions_removed rep = int (length questions)))"
  using deduplicate_returns[of questions]
    report_counts_when_returned[of questions questions' deduplicated rep]
  by blast

theorem report_counts_witness:
  "list_all record_ok example_corpus \<and>
   (\<exists>questions' deduplicated rep.
      deduplicate_questions example_corpus = Inr (questions', deduplicated, rep) \<and>
      total_original rep = 3 \<and>
      total_duplicate_instances rep = 1 \<and>
      total_after_deduplication rep = 2 \<and>
      total_after_deduplication rep + questions_removed rep = 3)"
proof -
  have la: "list_all record_ok example_corpus" by code_simp
  then have ok: "\<forall>q\<in>set example_corpus. record_ok q" by (simp add: list_all_iff)
  with report_counts[of example_corpus]
  obtain r where "deduplicate_questions example_corpus = Inr r" by blast
  then obtain q d rep where ev: "deduplicate_questions example_corpus = Inr (q, d, rep)"
    by (cases r) auto
  have fd: "find_duplicates example_corpus = Inr [(''What is OOP?'', [0, 1])]" by code_simp
  have n: "length example_corpus = 3" by (simp add: example_corpus_def)
  from report_counts[of example_corpus q d rep] ev fd n have
    "total_original rep = 3 \<and>
     total_duplicate_instances rep = 1 \<and>
     total_after_deduplication rep = 2 \<and>
     total_after_deduplication rep + questions_removed rep = 3" by auto
  with la ev show ?thesis by blast
qed

end
